theory Spec2Isabelle
  imports Complex_Main "HOL-Library.Word" "HOL-Library.Signed_Division"
begin

unbundle bit_operations_syntax

section \<open>Bytes, host byte order and the ways a C run can end\<close>

text \<open>
  The program is \<^verbatim>\<open>src/ping.c\<close>. Buffers are lists of bytes; a pointer into a buffer is
  the list of the bytes readable from it. \<^verbatim>\<open>*(uint16_t* )p\<close> and \<^verbatim>\<open>htons\<close> depend on the
  byte order of the host, which the source does not fix: it is a parameter of every function
  that touches memory, and every theorem below holds for both byte orders.
\<close>

type_synonym byte = "8 word"
type_synonym u16 = "16 word"
type_synonym u32 = "32 word"
type_synonym u64 = "64 word"

datatype endian = Little_endian | Big_endian

text \<open>
  How a call can fail to return: \<^verbatim>\<open>exit(EXIT_FAILURE)\<close>, or behaviour the C standard leaves
  undefined (a read or write outside the buffer, \<^verbatim>\<open>memcpy\<close> to the null pointer that a
  failed \<^verbatim>\<open>malloc\<close> returns, signed overflow).
\<close>

datatype abort = Exit_failure | Undefined_behaviour

text \<open>\<^verbatim>\<open>*(const uint16_t* )p\<close> where \<^verbatim>\<open>p[0] = b0\<close> and \<^verbatim>\<open>p[1] = b1\<close>.\<close>

definition load_u16 :: "endian \<Rightarrow> byte \<Rightarrow> byte \<Rightarrow> u16" where
  "load_u16 e b0 b1 =
     (case e of Little_endian \<Rightarrow> word_cat b1 b0 | Big_endian \<Rightarrow> word_cat b0 b1)"

text \<open>The two bytes that a store of a \<^verbatim>\<open>uint16_t\<close> writes, lowest address first.\<close>

definition store_u16 :: "endian \<Rightarrow> u16 \<Rightarrow> byte list" where
  "store_u16 e w =
     (case e of
        Little_endian \<Rightarrow> [ucast w, ucast (drop_bit 8 w)]
      | Big_endian \<Rightarrow> [ucast (drop_bit 8 w), ucast w])"

fun load_le :: "byte list \<Rightarrow> u64" where
  "load_le [] = 0"
| "load_le (b # bs) = ucast b OR push_bit 8 (load_le bs)"

definition load_u64 :: "endian \<Rightarrow> byte list \<Rightarrow> u64" where
  "load_u64 e bs = (case e of Little_endian \<Rightarrow> load_le bs | Big_endian \<Rightarrow> load_le (rev bs))"

definition store_le :: "u64 \<Rightarrow> byte list" where
  "store_le w =
     [ucast w, ucast (drop_bit 8 w), ucast (drop_bit 16 w), ucast (drop_bit 24 w),
      ucast (drop_bit 32 w), ucast (drop_bit 40 w), ucast (drop_bit 48 w), ucast (drop_bit 56 w)]"

definition store_u64 :: "endian \<Rightarrow> u64 \<Rightarrow> byte list" where
  "store_u64 e w = (case e of Little_endian \<Rightarrow> store_le w | Big_endian \<Rightarrow> rev (store_le w))"

definition bswap16 :: "u16 \<Rightarrow> u16" where
  "bswap16 w = word_cat (ucast w :: byte) (ucast (drop_bit 8 w) :: byte)"

definition htons :: "endian \<Rightarrow> u16 \<Rightarrow> u16" where
  "htons e w = (case e of Little_endian \<Rightarrow> bswap16 w | Big_endian \<Rightarrow> w)"

definition ntohs :: "endian \<Rightarrow> u16 \<Rightarrow> u16" where
  "ntohs e w = (case e of Little_endian \<Rightarrow> bswap16 w | Big_endian \<Rightarrow> w)"

text \<open>Writing the bytes \<open>bs\<close> into a buffer from offset \<open>off\<close> on (the caller checks the bounds).\<close>

definition write_bytes :: "nat \<Rightarrow> byte list \<Rightarrow> byte list \<Rightarrow> byte list" where
  "write_bytes off bs buf = take off buf @ bs @ drop (off + length bs) buf"

text \<open>
  An \<^verbatim>\<open>int\<close> converted to \<^verbatim>\<open>size_t\<close> (64 bits; with 32 bits the guards below decide the
  same way for every \<^verbatim>\<open>int\<close>): the usual arithmetic conversions do this to \<^verbatim>\<open>len\<close> wherever
  it is compared with \<^verbatim>\<open>sizeof(icmp_t)\<close>.
\<close>

definition to_size_t :: "int \<Rightarrow> int" where
  "to_size_t n = n mod 2 ^ 64"

section \<open>The ICMP record and its checksum\<close>

text \<open>
  \<^verbatim>\<open>icmp_t\<close>: the fields lie at offsets 0, 1, 2, 4, 6 and 8 without padding, so
  \<^verbatim>\<open>sizeof(icmp_t)\<close> is 16. The fields are named \<open>icmp_type\<close> ... \<open>icmp_ts\<close> here, because
  \<open>id\<close> is a constant of HOL and \<open>seq\<close> is the session's counter below.
\<close>

record icmp_t =
  icmp_type :: byte
  icmp_code :: byte
  icmp_cksum :: u16
  icmp_id :: u16
  icmp_seq :: u16
  icmp_ts :: u64

definition sizeof_icmp_t :: int where
  "sizeof_icmp_t = 16"

text \<open>The loop \<^verbatim>\<open>for (int i = 0; i < len; i += 2) checksum += *(const uint16_t* )(buf + i)\<close>.\<close>

function sum_loop :: "endian \<Rightarrow> byte list \<Rightarrow> int \<Rightarrow> int \<Rightarrow> u32 \<Rightarrow> u32" where
  "sum_loop e buf len i checksum =
     (if i < len
      then sum_loop e buf len (i + 2)
             (checksum + ucast (load_u16 e (buf ! nat i) (buf ! nat (i + 1))))
      else checksum)"
  by pat_completeness auto
termination
  by (relation "measure (\<lambda>(e, buf, len, i, checksum). nat (len - i))") auto

declare sum_loop.simps [simp del]

text \<open>The last three lines of \<^verbatim>\<open>icmp_checksum\<close>: two folds, and the complement cut to 16 bits.\<close>

definition fold_complement :: "u32 \<Rightarrow> u16" where
  "fold_complement checksum =
     (let c1 = drop_bit 16 checksum + (checksum AND 0xffff);
          c2 = c1 + drop_bit 16 c1
      in ucast (NOT c2))"

text \<open>
  \<^verbatim>\<open>icmp_checksum\<close>. \<^verbatim>\<open>len % 2\<close> is C's remainder (\<open>smod\<close>: \<open>-1\<close> for a negative odd \<open>len\<close>).
  In the odd branch the source decrements \<open>len\<close> first and then reads
  \<^verbatim>\<open>buf + len - 1\<close>: that is the byte before the last one, and no byte of the buffer at all
  when \<open>len\<close> was 1.
\<close>

definition icmp_checksum :: "endian \<Rightarrow> byte list \<Rightarrow> int \<Rightarrow> abort + u16" where
  "icmp_checksum e buf len =
     (if len smod 2 = 1 then
        (let len' = len - 1 in
         if len' - 1 < 0 \<or> int (length buf) < len' then Inl Undefined_behaviour
         else Inr (fold_complement
                     (sum_loop e buf len' 0 (ucast (load_u16 e (buf ! nat (len' - 1)) 0)))))
      else if int (length buf) < len then Inl Undefined_behaviour
      else Inr (fold_complement (sum_loop e buf len 0 0)))"

section \<open>Serialising and parsing\<close>

text \<open>
  \<^verbatim>\<open>icmp_serialize\<close>: the stores through \<^verbatim>\<open>icmp_t* icmp = (icmp_t* )buf\<close> in the order of the
  source. The result is the buffer after the call.
\<close>

definition icmp_serialize :: "endian \<Rightarrow> icmp_t \<Rightarrow> byte list \<Rightarrow> int \<Rightarrow> abort + byte list" where
  "icmp_serialize e req buf len =
     (if to_size_t len \<noteq> sizeof_icmp_t then Inl Exit_failure
      else if int (length buf) < sizeof_icmp_t then Inl Undefined_behaviour
      else
        let b1 = write_bytes 2 (store_u16 e 0) buf;
            b2 = b1[0 := icmp_type req];
            b3 = b2[1 := icmp_code req];
            b4 = write_bytes 4 (store_u16 e (htons e (icmp_id req))) b3;
            b5 = write_bytes 6 (store_u16 e (htons e (icmp_seq req))) b4;
            b6 = write_bytes 8 (store_u64 e (icmp_ts req)) b5
        in case icmp_checksum e b6 len of
             Inl a \<Rightarrow> Inl a
           | Inr c \<Rightarrow> Inr (write_bytes 2 (store_u16 e c) b6))"

text \<open>\<^verbatim>\<open>*(const icmp_t* )buf\<close>: the record read from the first 16 bytes.\<close>

definition read_icmp :: "endian \<Rightarrow> byte list \<Rightarrow> icmp_t" where
  "read_icmp e buf =
     \<lparr>icmp_type = buf ! 0, icmp_code = buf ! 1,
      icmp_cksum = load_u16 e (buf ! 2) (buf ! 3),
      icmp_id = load_u16 e (buf ! 4) (buf ! 5),
      icmp_seq = load_u16 e (buf ! 6) (buf ! 7),
      icmp_ts = load_u64 e (take 8 (drop 8 buf))\<rparr>"

text \<open>What \<^verbatim>\<open>parse_reply\<close> returns: \<open>-1\<close>, or 0 together with the record left in \<^verbatim>\<open>*reply\<close>.\<close>

datatype parse_result = Ret_fail | Ret_ok icmp_t

fun parse_ret :: "parse_result \<Rightarrow> int" where
  "parse_ret Ret_fail = - 1"
| "parse_ret (Ret_ok r) = 0"

text \<open>
  \<^verbatim>\<open>parse_reply\<close>. The guard compares \<open>len\<close> as a \<^verbatim>\<open>size_t\<close>. \<^verbatim>\<open>malloc(len)\<close> takes \<open>len\<close> as a
  \<^verbatim>\<open>size_t\<close> too: for a negative \<open>len\<close> that is a request of nearly \<open>2 ^ 64\<close> bytes, which fails,
  and the source passes the null pointer on to \<^verbatim>\<open>memcpy\<close>. For all other lengths the
  allocation is taken to succeed.
\<close>

definition parse_reply :: "endian \<Rightarrow> byte list \<Rightarrow> int \<Rightarrow> abort + parse_result" where
  "parse_reply e buf len =
     (if to_size_t len < sizeof_icmp_t then Inr Ret_fail
      else if int (length buf) < sizeof_icmp_t then Inl Undefined_behaviour
      else
        let reply = read_icmp e buf in
        if icmp_type reply \<noteq> 0 \<or> icmp_code reply \<noteq> 0 then Inr Ret_fail
        else if len < 0 \<or> int (length buf) < len then Inl Undefined_behaviour
        else
          let copy = write_bytes 2 (store_u16 e 0) (take (nat len) buf) in
          case icmp_checksum e copy len of
            Inl a \<Rightarrow> Inl a
          | Inr checksum \<Rightarrow>
              if icmp_cksum reply \<noteq> checksum then Inr Ret_fail
              else Inr (Ret_ok (reply\<lparr>icmp_cksum := ntohs e (icmp_cksum reply),
                                      icmp_id := ntohs e (icmp_id reply),
                                      icmp_seq := ntohs e (icmp_seq reply)\<rparr>)))"

section \<open>The session: the probe window and the two event handlers\<close>

text \<open>
  The globals \<^verbatim>\<open>seq\<close> and \<^verbatim>\<open>send_times[TIMEOUT]\<close>. The \<^verbatim>\<open>double\<close> timestamps are idealised
  as reals: the program only compares them with 0 and subtracts two of them.
\<close>

record session =
  seq :: int
  send_times :: "real list"

definition TIMEOUT :: int where
  "TIMEOUT = 5"

definition MTU :: nat where
  "MTU = 1500"

definition IPV4_HEADER_SIZE :: nat where
  "IPV4_HEADER_SIZE = 20"

definition TTL_OFFSET :: nat where
  "TTL_OFFSET = 8"

definition init_session :: session where
  "init_session = \<lparr>seq = 0, send_times = replicate 5 0\<rparr>"

text \<open>What the process prints and sends, in order.\<close>

datatype effect =
    Timeout_line int
  | Reply_line int int real
  | Sendto "byte list"

text \<open>
  What the environment hands to \<^verbatim>\<open>on_timeout\<close>: the value of \<^verbatim>\<open>time_in_ms()\<close>, of
  \<^verbatim>\<open>getpid()\<close> and of \<^verbatim>\<open>time(NULL)\<close>, and whether \<^verbatim>\<open>read\<close> on the timer and \<^verbatim>\<open>sendto\<close>
  succeed.
\<close>

record timer_env =
  te_now :: real
  te_pid :: int
  te_time :: u64
  te_read_ok :: bool
  te_sendto_ok :: bool

text \<open>The request that \<^verbatim>\<open>on_timeout\<close> builds (lines 223 to 229).\<close>

definition echo_request :: "timer_env \<Rightarrow> int \<Rightarrow> icmp_t" where
  "echo_request env sq =
     \<lparr>icmp_type = 8, icmp_code = 0, icmp_cksum = 0,
      icmp_id = word_of_int (te_pid env AND 0xffff),
      icmp_seq = word_of_int sq,
      icmp_ts = te_time env\<rparr>"

text \<open>
  \<^verbatim>\<open>send_req\<close>: the 16-byte stack buffer is written completely by \<^verbatim>\<open>icmp_serialize\<close> before
  it is read, so its initial content does not matter (lemma \<open>icmp_serialize_bytes\<close>).
  \<^verbatim>\<open>inet_pton\<close> returns \<open>-1\<close> only for an unknown address family, never here.
\<close>

definition send_req :: "endian \<Rightarrow> icmp_t \<Rightarrow> bool \<Rightarrow> abort + byte list" where
  "send_req e req sendto_ok =
     (case icmp_serialize e req (replicate (nat sizeof_icmp_t) 0) sizeof_icmp_t of
        Inl a \<Rightarrow> Inl a
      | Inr buf \<Rightarrow> if sendto_ok then Inr buf else Inl Exit_failure)"

text \<open>
  \<^verbatim>\<open>on_timeout\<close>, called with \<open>seq\<close> already incremented. \<^verbatim>\<open>seq % TIMEOUT\<close> is C's
  remainder, negative for a negative \<open>seq\<close>, and then no index of the array. A run that
  exits is not continued, and what it printed before is not kept.
\<close>

definition on_timeout :: "endian \<Rightarrow> timer_env \<Rightarrow> session \<Rightarrow> abort + session \<times> effect list" where
  "on_timeout e env s =
     (let index = seq s smod TIMEOUT in
      if index < 0 \<or> length (send_times s) \<le> nat index then Inl Undefined_behaviour
      else
        let out = (if send_times s ! nat index \<noteq> 0 then [Timeout_line (seq s - TIMEOUT)] else []);
            s' = s\<lparr>send_times := (send_times s)[nat index := te_now env]\<rparr>
        in
        if \<not> te_read_ok env then Inl Exit_failure
        else
          case send_req e (echo_request env (seq s)) (te_sendto_ok env) of
            Inl a \<Rightarrow> Inl a
          | Inr pkt \<Rightarrow> Inr (s', out @ [Sendto pkt]))"

text \<open>
  What the environment hands to \<^verbatim>\<open>on_recv\<close>: the return value of \<^verbatim>\<open>recvfrom\<close>, the content
  of the 1500-byte array \<^verbatim>\<open>buf\<close> after the call, and the values of \<^verbatim>\<open>getpid()\<close> and
  \<^verbatim>\<open>time_in_ms()\<close>.
\<close>

record recv_env =
  re_nrecv :: int
  re_buf :: "byte list"
  re_pid :: int
  re_now :: real

text \<open>
  \<^verbatim>\<open>on_recv\<close>. The operands of \<^verbatim>\<open>reply.seq <= seq - TIMEOUT\<close> and of
  \<^verbatim>\<open>reply.id != (getpid() & 0xffff)\<close> are \<^verbatim>\<open>int\<close>s: the 16-bit fields are promoted.
\<close>

definition on_recv :: "endian \<Rightarrow> recv_env \<Rightarrow> session \<Rightarrow> abort + session \<times> effect list" where
  "on_recv e env s =
     (if re_nrecv env = - 1 then Inl Exit_failure
      else
        let ttl = uint (re_buf env ! TTL_OFFSET);
            icmp_packet = drop IPV4_HEADER_SIZE (re_buf env);
            icmp_size = re_nrecv env - int IPV4_HEADER_SIZE
        in
        case parse_reply e icmp_packet icmp_size of
          Inl a \<Rightarrow> Inl a
        | Inr Ret_fail \<Rightarrow> Inr (s, [])
        | Inr (Ret_ok reply) \<Rightarrow>
            if uint (icmp_id reply) \<noteq> (re_pid env AND 0xffff) then Inr (s, [])
            else
              let index = nat (uint (icmp_seq reply) smod TIMEOUT) in
              if uint (icmp_seq reply) \<le> seq s - TIMEOUT then Inr (s, [])
              else if length (send_times s) \<le> index then Inl Undefined_behaviour
              else
                let time = re_now env - send_times s ! index in
                Inr (s\<lparr>send_times := (send_times s)[index := 0]\<rparr>,
                     [Reply_line (uint (icmp_seq reply)) ttl time]))"

text \<open>
  One turn of the loop of \<^verbatim>\<open>main\<close>, for the event that \<^verbatim>\<open>epoll_wait\<close> delivers.
  \<^verbatim>\<open>seq++\<close> on the largest \<^verbatim>\<open>int\<close> is undefined.
\<close>

datatype event =
    Socket_ready recv_env
  | Timer_ready timer_env
  | Unknown_fd
  | Wait_failed

definition main_step :: "endian \<Rightarrow> event \<Rightarrow> session \<Rightarrow> abort + session \<times> effect list" where
  "main_step e ev s =
     (case ev of
        Wait_failed \<Rightarrow> Inl Exit_failure
      | Socket_ready env \<Rightarrow> on_recv e env s
      | Timer_ready env \<Rightarrow>
          if seq s = 2 ^ 31 - 1 then Inl Undefined_behaviour
          else on_timeout e env (s\<lparr>seq := seq s + 1\<rparr>)
      | Unknown_fd \<Rightarrow> Inl Exit_failure)"

text \<open>
  The loop \<^verbatim>\<open>for (;;)\<close> never returns by itself; \<open>main_loop\<close> runs it over a finite sequence of
  events and gives the session after the last one and what each turn printed and sent.
\<close>

fun main_loop :: "endian \<Rightarrow> event list \<Rightarrow> session \<Rightarrow> abort + session \<times> effect list list" where
  "main_loop e [] s = Inr (s, [])"
| "main_loop e (ev # evs) s =
     (case main_step e ev s of
        Inl a \<Rightarrow> Inl a
      | Inr (s', out) \<Rightarrow>
          (case main_loop e evs s' of
             Inl a \<Rightarrow> Inl a
           | Inr (s'', outs) \<Rightarrow> Inr (s'', out # outs)))"

section \<open>The Internet checksum as the specification words it\<close>

text \<open>
  The 16-bit words of a buffer, read as the host reads them; a final single byte is
  completed by a zero byte.
\<close>

fun words16 :: "endian \<Rightarrow> byte list \<Rightarrow> nat list" where
  "words16 e (b0 # b1 # bs) = unat (load_u16 e b0 b1) # words16 e bs"
| "words16 e [b] = [unat (load_u16 e b 0)]"
| "words16 e [] = []"

text \<open>Adding the high 16 bits into the low 16 bits until no carry remains.\<close>

function fold_carries :: "nat \<Rightarrow> nat" where
  "fold_carries n = (if n < 65536 then n else fold_carries (n div 65536 + n mod 65536))"
  by pat_completeness auto
termination
proof (relation "measure (\<lambda>n. n)")
  fix n :: nat
  assume "\<not> n < 65536"
  then have "1 \<le> n div 65536" by simp
  moreover have "n = 65536 * (n div 65536) + n mod 65536" by simp
  ultimately have "n div 65536 + n mod 65536 < n" by linarith
  then show "(n div 65536 + n mod 65536, n) \<in> measure (\<lambda>n. n)" by simp
qed simp

declare fold_carries.simps [simp del]

text \<open>The sum of all 16-bit words of a buffer with the carries folded back in.\<close>

definition ones_sum :: "endian \<Rightarrow> byte list \<Rightarrow> nat" where
  "ones_sum e bs = fold_carries (sum_list (words16 e bs))"

text \<open>
  The checksum of a message in network byte order: the complement of the folded sum of its
  words read with the high byte first.
\<close>

definition inet_checksum :: "byte list \<Rightarrow> u16" where
  "inet_checksum bs = NOT (word_of_nat (ones_sum Big_endian bs))"

text \<open>
  Two functions that only the proofs use: the value of a folded sum in closed form (the
  representative of \<open>n\<close> modulo 65535 between 1 and 65535, and 0 for 0), and a 16-bit number
  with its two bytes exchanged.
\<close>

definition canon :: "nat \<Rightarrow> nat" where
  "canon n = (if n = 0 then 0 else (n - 1) mod 65535 + 1)"


definition swapn :: "nat \<Rightarrow> nat" where
  "swapn x = (x mod 256) * 256 + x div 256"

section \<open>The wire format as the specification words it\<close>

text \<open>
  The 16-byte packet of the specification: type, code, checksum, identifier and sequence
  number with the high byte first, then the eight bytes of the timestamp as they lie in the
  memory of the host. It is what \<open>icmp_serialize\<close> is compared with below.
\<close>

definition wire_packet :: "endian \<Rightarrow> icmp_t \<Rightarrow> u16 \<Rightarrow> byte list" where
  "wire_packet e r ck =
     [icmp_type r, icmp_code r, ucast (drop_bit 8 ck), ucast ck,
      ucast (drop_bit 8 (icmp_id r)), ucast (icmp_id r),
      ucast (drop_bit 8 (icmp_seq r)), ucast (icmp_seq r)] @ store_u64 e (icmp_ts r)"

section \<open>Reading the output\<close>

text \<open>
  The sequence numbers of the timeout lines in what one turn of the loop printed, and the
  sequence fields (bytes 6 and 7, high byte first) of the packets it sent.
\<close>

fun timeout_seqs :: "effect list \<Rightarrow> int list" where
  "timeout_seqs [] = []"
| "timeout_seqs (Timeout_line k # es) = k # timeout_seqs es"
| "timeout_seqs (Reply_line k t d # es) = timeout_seqs es"
| "timeout_seqs (Sendto pkt # es) = timeout_seqs es"

fun sent_seqs :: "effect list \<Rightarrow> u16 list" where
  "sent_seqs [] = []"
| "sent_seqs (Sendto pkt # es) = word_cat (pkt ! 6) (pkt ! 7) # sent_seqs es"
| "sent_seqs (Timeout_line k # es) = sent_seqs es"
| "sent_seqs (Reply_line k t d # es) = sent_seqs es"

section \<open>The history of a run\<close>

text \<open>
  The clock readings at which the probes of a run were sent, in order: the probe with
  sequence number \<open>k\<close> (the value of \<open>seq\<close> when it is sent, counted from 1) is the timer
  event number \<open>k\<close>.
\<close>

definition sent_at :: "event list \<Rightarrow> real list" where
  "sent_at evs = concat (map (\<lambda>ev. case ev of Timer_ready env \<Rightarrow> [te_now env] | _ \<Rightarrow> []) evs)"

text \<open>
  The send timestamp of the most recently sent probe whose sequence number is congruent to
  \<open>i\<close> modulo 5, if there is one.
\<close>

definition last_sent :: "real list \<Rightarrow> nat \<Rightarrow> real option" where
  "last_sent ts i =
     (case filter (\<lambda>k. k mod 5 = i) (rev [1..<Suc (length ts)]) of
        [] \<Rightarrow> None
      | k # ks \<Rightarrow> Some (ts ! (k - 1)))"

text \<open>The event sends a probe into slot \<open>i\<close>.\<close>

definition sent_into :: "event \<Rightarrow> session \<Rightarrow> nat \<Rightarrow> bool" where
  "sent_into ev s i =
     (case ev of Timer_ready env \<Rightarrow> i = nat ((seq s + 1) mod 5) | _ \<Rightarrow> False)"

text \<open>The event is a timer tick at which \<^verbatim>\<open>time_in_ms()\<close> reads 0, the value of an empty slot.\<close>

definition clock_zero :: "event \<Rightarrow> bool" where
  "clock_zero ev = (case ev of Timer_ready env \<Rightarrow> te_now env = 0 | _ \<Rightarrow> False)"

text \<open>
  The event is a datagram that passes the five checks for slot \<open>i\<close>, stated on the bytes
  received: at least 16 bytes behind the IP header, type and code 0, the checksum over the
  message with a zero checksum field equal to the field received, the identifier equal to
  the low 16 bits of the process id, the sequence number above \<open>seq - 5\<close>, and \<open>i\<close> the
  sequence number modulo 5.
\<close>

definition accepted_for :: "endian \<Rightarrow> event \<Rightarrow> session \<Rightarrow> nat \<Rightarrow> bool" where
  "accepted_for e ev s i =
     (case ev of
        Socket_ready env \<Rightarrow>
          (let len = re_nrecv env - 20; pkt = drop 20 (re_buf env) in
           16 \<le> len \<and> len \<le> int (length pkt) \<and>
           pkt ! 0 = 0 \<and> pkt ! 1 = 0 \<and>
           icmp_checksum e (write_bytes 2 [0, 0] (take (nat len) pkt)) len
             = Inr (load_u16 e (pkt ! 2) (pkt ! 3)) \<and>
           uint (word_cat (pkt ! 4) (pkt ! 5) :: u16) = (re_pid env AND 0xffff) \<and>
           seq s - 5 < uint (word_cat (pkt ! 6) (pkt ! 7) :: u16) \<and>
           i = nat (uint (word_cat (pkt ! 6) (pkt ! 7) :: u16) mod 5))
      | _ \<Rightarrow> False)"

section \<open>Datagrams for the concrete runs\<close>

text \<open>
  The 1500-byte array of \<open>on_recv\<close> after \<^verbatim>\<open>recvfrom\<close> has stored a datagram: a 20-byte
  IPv4 header without options (TTL 64 at offset 8), the ICMP message, zeros behind it.
\<close>

definition recv_buffer :: "byte list \<Rightarrow> byte list" where
  "recv_buffer icmp =
     [0x45, 0, 0, 36, 0, 0, 0, 0, 64, 1, 0, 0, 127, 0, 0, 1, 127, 0, 0, 1]
       @ icmp @ replicate (1480 - length icmp) 0"

section \<open>Bytes and words\<close>

lemma unat_byte_less: "unat (b :: byte) < 256"
  using unsigned_less [of b, where 'a = nat] by simp

lemma unat_u16_less: "unat (w :: u16) < 65536"
  using unsigned_less [of w, where 'a = nat] by simp

lemma unat_u32_less: "unat (w :: u32) < 4294967296"
  using unsigned_less [of w, where 'a = nat] by simp

lemma unat_word_cat_bytes: "unat (word_cat (a::byte) (b::byte) :: u16) = unat a * 256 + unat b"
  using unat_byte_less [of a] unat_byte_less [of b]
  by (simp add: word_cat_eq unat_word_ariths unsigned_push_bit_eq unsigned_ucast_eq
      take_bit_eq_mod push_bit_eq_mult)

lemma unat_low_byte: "unat (ucast (w::u16) :: byte) = unat w mod 256"
  by (simp add: unsigned_ucast_eq take_bit_eq_mod)

lemma unat_drop_bit_8: "unat (drop_bit 8 (w::u16)) = unat w div 256"
  by (subst unat_drop_bit_eq) (simp add: drop_bit_eq_div)

lemma unat_high_byte: "unat (ucast (drop_bit 8 (w::u16)) :: byte) = unat w div 256"
proof -
  have "unat w div 256 < 256"
    using unat_u16_less [of w] by simp
  then show ?thesis
    by (simp add: unat_low_byte unat_drop_bit_8)
qed

lemma word_cat_high_low: "word_cat (ucast (drop_bit 8 (w::u16)) :: byte) (ucast w :: byte) = w"
proof -
  have "unat w div 256 < 256"
    using unat_u16_less [of w] by simp
  then show ?thesis
    by (simp add: word_unat_eq_iff unat_word_cat_bytes unat_low_byte unat_drop_bit_8)
qed

lemma high_byte_word_cat: "(ucast (drop_bit 8 (word_cat (a::byte) (b::byte) :: u16)) :: byte) = a"
  using unat_byte_less [of a] unat_byte_less [of b]
  by (simp add: word_unat_eq_iff unat_word_cat_bytes unat_high_byte)

lemma low_byte_word_cat: "(ucast (word_cat (a::byte) (b::byte) :: u16) :: byte) = b"
  using unat_byte_less [of a] unat_byte_less [of b]
  by (simp add: word_unat_eq_iff unat_word_cat_bytes unat_low_byte)

lemma bswap16_bswap16: "bswap16 (bswap16 w) = w"
  by (simp add: bswap16_def high_byte_word_cat low_byte_word_cat word_cat_high_low)

lemma ntohs_htons: "ntohs e (htons e w) = w"
  by (cases e) (simp_all add: ntohs_def htons_def bswap16_bswap16)

lemma load_store_u16: "store_u16 e w = [a, b] \<Longrightarrow> load_u16 e a b = w"
  by (cases e) (auto simp add: store_u16_def load_u16_def word_cat_high_low)

lemma low_byte_or_rest:
  "ucast (ucast (drop_bit k (w::u64)) :: byte) OR push_bit 8 (drop_bit (k + 8) w) = drop_bit k w"
proof (rule bit_word_eqI)
  fix n
  assume n: "n < LENGTH(64)"
  show "bit (ucast (ucast (drop_bit k w) :: byte) OR push_bit 8 (drop_bit (k + 8) w)) n
          = bit (drop_bit k w) n"
  proof (cases "n < 8")
    case True
    then show ?thesis by (simp add: bit_simps)
  next
    case False
    then have "k + 8 + (n - 8) = k + n" by simp
    with False n show ?thesis by (simp add: bit_simps)
  qed
qed

lemma top_byte: "ucast (ucast (drop_bit 56 (w::u64)) :: byte) = drop_bit 56 w"
  by (rule bit_word_eqI) (auto simp add: bit_simps dest: bit_imp_le_length)

lemma load_le_store_le: "load_le (store_le w) = w"
  using low_byte_or_rest [of 0 w] low_byte_or_rest [of 8 w] low_byte_or_rest [of 16 w]
    low_byte_or_rest [of 24 w] low_byte_or_rest [of 32 w] low_byte_or_rest [of 40 w]
    low_byte_or_rest [of 48 w]
  by (simp add: store_le_def top_byte)

lemma load_store_u64: "load_u64 e (store_u64 e w) = w"
  by (cases e) (simp_all add: load_u64_def store_u64_def load_le_store_le)


lemma length_16_cases:
  assumes "length (buf :: 'a list) = 16"
  obtains b0 b1 b2 b3 b4 b5 b6 b7 b8 b9 b10 b11 b12 b13 b14 b15
  where "buf = [b0, b1, b2, b3, b4, b5, b6, b7, b8, b9, b10, b11, b12, b13, b14, b15]"
  using assms by (auto simp add: eval_nat_numeral length_Suc_conv)

lemma store_u16_htons: "store_u16 e (htons e w) = [ucast (drop_bit 8 w), ucast w]"
  by (cases e) (simp_all add: store_u16_def htons_def bswap16_def high_byte_word_cat low_byte_word_cat)

lemma store_u16_zero: "store_u16 e 0 = [0, 0]"
  by (cases e) (simp_all add: store_u16_def)

lemma length_store_u64: "length (store_u64 e w) = 8"
  by (cases e) (simp_all add: store_u64_def store_le_def)

lemma length_store_u16: "length (store_u16 e w) = 2"
  by (cases e) (simp_all add: store_u16_def)

lemma length_wire_packet: "length (wire_packet e r ck) = 16"
  by (simp add: wire_packet_def length_store_u64)

lemma icmp_checksum_even:
  "len smod 2 \<noteq> 1 \<Longrightarrow> len \<le> int (length buf) \<Longrightarrow>
   icmp_checksum e buf len = Inr (fold_complement (sum_loop e buf len 0 0))"
  by (simp add: icmp_checksum_def)

lemma icmp_serialize_bytes:
  assumes "length buf = 16"
  shows "icmp_serialize e req buf 16 =
           Inr (write_bytes 2 (store_u16 e (fold_complement (sum_loop e (wire_packet e req 0) 16 0 0)))
                  (wire_packet e req 0))"
proof -
  obtain t0 t1 t2 t3 t4 t5 t6 t7 where ts: "store_u64 e (icmp_ts req) = [t0, t1, t2, t3, t4, t5, t6, t7]"
    by (cases e) (simp_all add: store_u64_def store_le_def)
  from assms obtain b0 b1 b2 b3 b4 b5 b6 b7 b8 b9 b10 b11 b12 b13 b14 b15
    where buf: "buf = [b0, b1, b2, b3, b4, b5, b6, b7, b8, b9, b10, b11, b12, b13, b14, b15]"
    by (rule length_16_cases)
  show ?thesis
    unfolding icmp_serialize_def
    by (simp add: buf ts to_size_t_def sizeof_icmp_t_def write_bytes_def store_u16_htons
        store_u16_zero wire_packet_def icmp_checksum_def smod_int_alt_def Let_def)
qed

section \<open>What \<open>parse_reply\<close> computes\<close>

lemma ntohs_load_u16: "ntohs e (load_u16 e a b) = word_cat a b"
  by (cases e) (simp_all add: ntohs_def load_u16_def bswap16_def high_byte_word_cat low_byte_word_cat)

lemma icmp_checksum_returns:
  "16 \<le> len \<Longrightarrow> len \<le> int (length buf) \<Longrightarrow> \<exists>c. icmp_checksum e buf len = Inr c"
  by (simp add: icmp_checksum_def Let_def)

lemma to_size_t_int: "0 \<le> len \<Longrightarrow> len < 2 ^ 31 \<Longrightarrow> to_size_t len = len"
  by (simp add: to_size_t_def)

lemma length_write_bytes:
  "off + length bs \<le> length buf \<Longrightarrow> length (write_bytes off bs buf) = length buf"
  by (simp add: write_bytes_def)

lemma parse_reply_cases:
  assumes "0 \<le> len" and "len < 2 ^ 31" and "len \<le> int (length buf)"
  shows "parse_reply e buf len =
     (if len < 16 then Inr Ret_fail
      else if buf ! 0 \<noteq> 0 \<or> buf ! 1 \<noteq> 0 then Inr Ret_fail
      else if icmp_checksum e (write_bytes 2 [0, 0] (take (nat len) buf)) len
                \<noteq> Inr (load_u16 e (buf ! 2) (buf ! 3)) then Inr Ret_fail
      else Inr (Ret_ok \<lparr>icmp_type = buf ! 0, icmp_code = buf ! 1,
                        icmp_cksum = word_cat (buf ! 2) (buf ! 3),
                        icmp_id = word_cat (buf ! 4) (buf ! 5),
                        icmp_seq = word_cat (buf ! 6) (buf ! 7),
                        icmp_ts = load_u64 e (take 8 (drop 8 buf))\<rparr>))"
proof (cases "len < 16")
  case True
  with assms show ?thesis
    by (simp add: parse_reply_def to_size_t_int sizeof_icmp_t_def)
next
  case False
  let ?copy = "write_bytes 2 [0, 0] (take (nat len) buf)"
  from False assms have "length ?copy = nat len"
    by (simp add: length_write_bytes)
  with False obtain c where c: "icmp_checksum e ?copy len = Inr c"
    using icmp_checksum_returns [of len ?copy e] by auto
  from False assms c show ?thesis
    by (simp add: parse_reply_def to_size_t_int sizeof_icmp_t_def read_icmp_def Let_def
        store_u16_zero ntohs_load_u16)
qed

lemma on_recv_drops_rejected:
  "re_nrecv env \<noteq> - 1 \<Longrightarrow>
   parse_reply e (drop 20 (re_buf env)) (re_nrecv env - 20) = Inr Ret_fail \<Longrightarrow>
   on_recv e env s = Inr (s, [])"
  by (simp add: on_recv_def IPV4_HEADER_SIZE_def)

section \<open>Timer ticks without replies\<close>

lemma smod_nonneg: "0 \<le> a \<Longrightarrow> a smod 5 = a mod (5::int)"
  by (simp add: smod_int_alt_def sgn_if)

lemma send_req_packet:
  "send_req e req True =
     Inr (write_bytes 2
            (store_u16 e (fold_complement (sum_loop e (wire_packet e req 0) 16 0 0)))
            (wire_packet e req 0))"
  by (simp add: send_req_def sizeof_icmp_t_def icmp_serialize_bytes)

lemma packet_seq_field:
  "word_cat (write_bytes 2 (store_u16 e c) (wire_packet e req 0) ! 6)
            (write_bytes 2 (store_u16 e c) (wire_packet e req 0) ! 7) = icmp_seq req"
  by (cases e) (simp_all add: write_bytes_def store_u16_def wire_packet_def word_cat_high_low)

lemma on_timeout_ok:
  assumes "0 \<le> seq s" and "length (send_times s) = 5"
    and "te_read_ok env" and "te_sendto_ok env"
  shows "\<exists>pkt. on_timeout e env s =
            Inr (s\<lparr>send_times := (send_times s)[nat (seq s mod 5) := te_now env]\<rparr>,
                 (if send_times s ! nat (seq s mod 5) \<noteq> 0 then [Timeout_line (seq s - 5)] else [])
                   @ [Sendto pkt]) \<and>
          sent_seqs [Sendto pkt] = [word_of_int (seq s)]"
proof -
  have idx: "\<not> seq s mod 5 < 0" "\<not> 5 \<le> nat (seq s mod 5)"
    by simp_all
  have sq: "icmp_seq (echo_request env (seq s)) = word_of_int (seq s)"
    by (simp add: echo_request_def)
  show ?thesis
    using assms idx
    by (simp add: on_timeout_def smod_nonneg Let_def send_req_packet packet_seq_field sq
        TIMEOUT_def)
qed

lemma main_loop_snoc:
  "main_loop e (evs @ [ev]) s =
     (case main_loop e evs s of
        Inl a \<Rightarrow> Inl a
      | Inr (s', outs) \<Rightarrow>
          (case main_step e ev s' of
             Inl a \<Rightarrow> Inl a
           | Inr (s'', out) \<Rightarrow> Inr (s'', outs @ [out])))"
  by (induction evs arbitrary: s) (auto split: sum.splits prod.splits)

lemma same_slot_iff:
  "(\<exists>j<m. nat ((n + int j) mod 5) = nat ((n + int m) mod 5)) \<longleftrightarrow> 5 \<le> m"
proof
  assume "\<exists>j<m. nat ((n + int j) mod 5) = nat ((n + int m) mod 5)"
  then obtain j where "j < m" "nat ((n + int j) mod 5) = nat ((n + int m) mod 5)" by blast
  then have "j < m" "(n + int j) mod 5 = (n + int m) mod 5" by simp_all
  then show "5 \<le> m" by presburger
next
  assume m: "5 \<le> m"
  then have "(n + int (m - 5)) mod 5 = (n + int m) mod 5" by presburger
  moreover from m have "m - 5 < m" by simp
  ultimately show "\<exists>j<m. nat ((n + int j) mod 5) = nat ((n + int m) mod 5)" by metis
qed

lemma ticks_run:
  assumes "0 \<le> n" and "seq s = n - 1" and "send_times s = replicate 5 0"
    and "\<forall>env\<in>set envs. te_now env \<noteq> 0 \<and> te_read_ok env \<and> te_sendto_ok env"
    and "n + int (length envs) \<le> 2 ^ 31"
  shows "\<exists>s' outs. main_loop e (map Timer_ready envs) s = Inr (s', outs) \<and>
      seq s' = n - 1 + int (length envs) \<and> length (send_times s') = 5 \<and>
      (\<forall>i<5. send_times s' ! i \<noteq> 0 \<longleftrightarrow> (\<exists>j<length envs. nat ((n + int j) mod 5) = i)) \<and>
      map timeout_seqs outs
        = map (\<lambda>j. if j < 5 then [] else [n + int j - 5]) [0..<length envs] \<and>
      map sent_seqs outs = map (\<lambda>j. [word_of_int (n + int j)]) [0..<length envs]"
  using assms(4,5)
proof (induction envs rule: rev_induct)
  case Nil
  show ?case using assms(2,3) by simp
next
  case (snoc env envs)
  let ?m = "length envs"
  from snoc obtain s' outs where run: "main_loop e (map Timer_ready envs) s = Inr (s', outs)"
    and sq: "seq s' = n - 1 + int ?m" and len: "length (send_times s') = 5"
    and slots: "\<forall>i<5. send_times s' ! i \<noteq> 0 \<longleftrightarrow> (\<exists>j<?m. nat ((n + int j) mod 5) = i)"
    and touts: "map timeout_seqs outs
        = map (\<lambda>j. if j < 5 then [] else [n + int j - 5]) [0..<?m]"
    and sents: "map sent_seqs outs = map (\<lambda>j. [word_of_int (n + int j)]) [0..<?m]"
    by auto
  let ?s1 = "s'\<lparr>seq := seq s' + 1\<rparr>"
  let ?idx = "nat ((n + int ?m) mod 5)"
  from snoc.prems have env: "te_now env \<noteq> 0" "te_read_ok env" "te_sendto_ok env"
    and bound: "seq s' \<noteq> 2 ^ 31 - 1"
    using sq by auto
  have s1: "seq ?s1 = n + int ?m" "0 \<le> seq ?s1" "length (send_times ?s1) = 5"
    using sq len assms(1) by simp_all
  have idx: "?idx < 5" by simp
  from on_timeout_ok [OF s1(2,3) env(2,3), of e] obtain pkt where
    step: "on_timeout e env ?s1 =
            Inr (?s1\<lparr>send_times := (send_times s')[?idx := te_now env]\<rparr>,
                 (if send_times s' ! ?idx \<noteq> 0 then [Timeout_line (n + int ?m - 5)] else [])
                   @ [Sendto pkt])"
    and sent: "sent_seqs [Sendto pkt] = [word_of_int (n + int ?m)]"
    by (auto simp add: s1(1))
  have occupied: "send_times s' ! ?idx \<noteq> 0 \<longleftrightarrow> 5 \<le> ?m"
    using slots idx same_slot_iff [of ?m n] by simp
  let ?s2 = "?s1\<lparr>send_times := (send_times s')[?idx := te_now env]\<rparr>"
  let ?out = "(if 5 \<le> ?m then [Timeout_line (n + int ?m - 5)] else []) @ [Sendto pkt]"
  have loop: "main_loop e (map Timer_ready (envs @ [env])) s = Inr (?s2, outs @ [?out])"
    using run step bound occupied by (simp add: main_loop_snoc main_step_def)
  have slots2: "\<forall>i<5. send_times ?s2 ! i \<noteq> 0 \<longleftrightarrow> (\<exists>j<Suc ?m. nat ((n + int j) mod 5) = i)"
  proof (intro allI impI)
    fix i :: nat
    assume i: "i < 5"
    show "send_times ?s2 ! i \<noteq> 0 \<longleftrightarrow> (\<exists>j<Suc ?m. nat ((n + int j) mod 5) = i)"
    proof (cases "i = ?idx")
      case True
      then show ?thesis using env(1) len idx by auto
    next
      case False
      then have "send_times ?s2 ! i = send_times s' ! i" by simp
      with slots i False show ?thesis by (auto simp add: less_Suc_eq)
    qed
  qed
  have touts2: "timeout_seqs ?out = (if ?m < 5 then [] else [n + int ?m - 5])"
    by simp
  have sents2: "sent_seqs ?out = [word_of_int (n + int ?m)]"
    using sent by simp
  show ?case
    using loop slots2 touts sents touts2 sents2 sq len
    by (simp del: timeout_seqs.simps sent_seqs.simps)
qed


lemma upt_10: "[0..<10] = [0, 1, 2, 3, 4, 5, 6, 7, 8, 9]"
  by code_simp

section \<open>The window along a run\<close>

lemma parse_reply_okD:
  assumes "parse_reply e buf len = Inr (Ret_ok r)"
  shows "16 \<le> len \<and> len \<le> int (length buf) \<and> buf ! 0 = 0 \<and> buf ! 1 = 0 \<and>
         icmp_checksum e (write_bytes 2 [0, 0] (take (nat len) buf)) len
           = Inr (load_u16 e (buf ! 2) (buf ! 3)) \<and>
         icmp_id r = word_cat (buf ! 4) (buf ! 5) \<and> icmp_seq r = word_cat (buf ! 6) (buf ! 7)"
proof -
  have len: "16 \<le> len" if "\<not> len mod 2 ^ 64 < 16" "\<not> len < 0" for len :: int
  proof (rule ccontr)
    assume "\<not> 16 \<le> len"
    with that(2) have "len mod 2 ^ 64 = len" by simp
    with that(1) \<open>\<not> 16 \<le> len\<close> show False by simp
  qed
  from assms show ?thesis
    by (auto simp add: parse_reply_def to_size_t_def sizeof_icmp_t_def Let_def read_icmp_def
        store_u16_zero ntohs_load_u16 len split: if_splits sum.splits)
qed

lemma uint_smod_5: "uint (w :: u16) smod 5 = uint w mod 5"
  by (rule smod_nonneg) simp

lemma on_recv_cases:
  assumes "on_recv e env s = Inr (s', out)"
  shows "(s' = s \<and> out = []) \<or>
         (\<exists>i<length (send_times s). accepted_for e (Socket_ready env) s i \<and>
               s' = s\<lparr>send_times := (send_times s)[i := 0]\<rparr>)"
proof (cases "parse_reply e (drop 20 (re_buf env)) (re_nrecv env - 20)")
  case (Inl a)
  with assms show ?thesis
    by (simp add: on_recv_def IPV4_HEADER_SIZE_def split: if_splits)
next
  case (Inr res)
  show ?thesis
  proof (cases res)
    case Ret_fail
    with Inr assms show ?thesis
      by (simp add: on_recv_def IPV4_HEADER_SIZE_def split: if_splits)
  next
    case (Ret_ok reply)
    note ok = parse_reply_okD [OF Inr [unfolded Ret_ok]]
    from assms Inr Ret_ok ok show ?thesis
      by (auto simp add: on_recv_def IPV4_HEADER_SIZE_def TIMEOUT_def Let_def uint_smod_5
          accepted_for_def split: if_splits)
  qed
qed


lemma last_sent_snoc:
  "last_sent (ts @ [t]) i = (if Suc (length ts) mod 5 = i then Some t else last_sent ts i)"
proof (cases "Suc (length ts) mod 5 = i")
  case True
  then show ?thesis by (simp add: last_sent_def)
next
  case False
  show ?thesis
  proof (cases "filter (\<lambda>k. k mod 5 = i) (rev [1..<Suc (length ts)])")
    case Nil
    with False show ?thesis by (simp add: last_sent_def)
  next
    case (Cons k ks)
    then have "k \<in> set (filter (\<lambda>k. k mod 5 = i) (rev [1..<Suc (length ts)]))" by simp
    then have "k - 1 < length ts" by auto
    with False Cons show ?thesis by (simp add: last_sent_def nth_append)
  qed
qed

lemma sent_at_snoc:
  "sent_at (evs @ [ev]) =
     sent_at evs @ (case ev of Timer_ready env \<Rightarrow> [te_now env] | _ \<Rightarrow> [])"
  by (simp add: sent_at_def)

lemma main_step_timer:
  assumes "main_step e (Timer_ready env) s = Inr (s', out)" and "0 \<le> seq s"
  shows "s' = s\<lparr>seq := seq s + 1,
                 send_times := (send_times s)[nat ((seq s + 1) mod 5) := te_now env]\<rparr> \<and>
         nat ((seq s + 1) mod 5) < length (send_times s)"
proof -
  from assms(2) have "(seq s + 1) smod 5 = (seq s + 1) mod 5"
    by (intro smod_nonneg) simp
  with assms(1) show ?thesis
    by (auto simp add: main_step_def on_timeout_def TIMEOUT_def Let_def
        split: if_splits sum.splits)
qed

lemma main_step_cases:
  assumes "main_step e ev s = Inr (s', out)" and "0 \<le> seq s"
  shows "(\<exists>env. ev = Timer_ready env \<and> nat ((seq s + 1) mod 5) < length (send_times s) \<and>
            s' = s\<lparr>seq := seq s + 1,
                    send_times := (send_times s)[nat ((seq s + 1) mod 5) := te_now env]\<rparr>) \<or>
         (\<exists>env. ev = Socket_ready env \<and> s' = s) \<or>
         (\<exists>env. ev = Socket_ready env \<and>
            (\<exists>i<length (send_times s). accepted_for e ev s i \<and>
                s' = s\<lparr>send_times := (send_times s)[i := 0]\<rparr>))"
proof (cases ev)
  case (Socket_ready env)
  with assms(1) have "on_recv e env s = Inr (s', out)" by (simp add: main_step_def)
  from on_recv_cases [OF this] Socket_ready show ?thesis by auto
next
  case (Timer_ready env)
  with main_step_timer [of e env s s' out] assms show ?thesis by simp
next
  case Unknown_fd
  with assms(1) show ?thesis by (simp add: main_step_def)
next
  case Wait_failed
  with assms(1) show ?thesis by (simp add: main_step_def)
qed

lemma run_invariant:
  "main_loop e evs init_session = Inr (s, outs) \<Longrightarrow>
   seq s = int (length (sent_at evs)) \<and> length (send_times s) = 5 \<and>
   (\<forall>i<5. send_times s ! i = 0 \<or> last_sent (sent_at evs) i = Some (send_times s ! i))"
proof (induction evs arbitrary: s outs rule: rev_induct)
  case Nil
  then show ?case by (auto simp add: init_session_def sent_at_def)
next
  case (snoc ev evs)
  from snoc.prems obtain s0 outs0 out where
    run: "main_loop e evs init_session = Inr (s0, outs0)" and
    step: "main_step e ev s0 = Inr (s, out)"
    by (auto simp add: main_loop_snoc split: sum.splits prod.splits)
  from snoc.IH [OF run] have sq: "seq s0 = int (length (sent_at evs))"
    and len: "length (send_times s0) = 5"
    and inv: "\<forall>i<5. send_times s0 ! i = 0 \<or> last_sent (sent_at evs) i = Some (send_times s0 ! i)"
    by simp_all
  from sq have nonneg: "0 \<le> seq s0" by simp
  from main_step_cases [OF step nonneg] show ?case
  proof (elim disjE exE conjE)
    fix env
    assume ev: "ev = Timer_ready env"
      and s: "s = s0\<lparr>seq := seq s0 + 1,
                  send_times := (send_times s0)[nat ((seq s0 + 1) mod 5) := te_now env]\<rparr>"
    have idx: "nat ((seq s0 + 1) mod 5) = Suc (length (sent_at evs)) mod 5"
      unfolding sq by (simp add: nat_mod_distrib nat_add_distrib)
    have "\<forall>i<5. send_times s ! i = 0 \<or>
              last_sent (sent_at evs @ [te_now env]) i = Some (send_times s ! i)"
      using inv len by (auto simp add: s idx last_sent_snoc nth_list_update)
    then show ?thesis
      using sq len by (simp add: s ev sent_at_snoc)
  next
    fix env
    assume "ev = Socket_ready env" "s = s0"
    with sq len inv show ?thesis by (simp add: sent_at_snoc)
  next
    fix env i
    assume ev: "ev = Socket_ready env" and i: "i < length (send_times s0)"
      and s: "s = s0\<lparr>send_times := (send_times s0)[i := 0]\<rparr>"
    have "\<forall>j<5. send_times s ! j = 0 \<or> last_sent (sent_at evs) j = Some (send_times s ! j)"
    proof (intro allI impI)
      fix j :: nat
      assume j: "j < 5"
      show "send_times s ! j = 0 \<or> last_sent (sent_at evs) j = Some (send_times s ! j)"
      proof (cases "j = i")
        case True
        with i show ?thesis by (simp add: s)
      next
        case False
        with inv j show ?thesis by (simp add: s)
      qed
    qed
    with sq len show ?thesis by (simp add: s ev sent_at_snoc)
  qed
qed


lemma step_slot_changes:
  assumes step: "main_step e ev s = Inr (s', out)" and nonneg: "0 \<le> seq s"
    and clock: "\<not> clock_zero ev"
  shows "(send_times s ! i = 0 \<and> send_times s' ! i \<noteq> 0 \<longrightarrow> sent_into ev s i) \<and>
         (send_times s ! i \<noteq> 0 \<and> send_times s' ! i = 0 \<longrightarrow> accepted_for e ev s i)"
  using main_step_cases [OF step nonneg]
proof (elim disjE exE conjE)
  fix env
  assume ev: "ev = Timer_ready env"
    and idx: "nat ((seq s + 1) mod 5) < length (send_times s)"
    and s': "s' = s\<lparr>seq := seq s + 1,
                send_times := (send_times s)[nat ((seq s + 1) mod 5) := te_now env]\<rparr>"
  from clock ev have "te_now env \<noteq> 0" by (simp add: clock_zero_def)
  with idx show ?thesis
    by (cases "i = nat ((seq s + 1) mod 5)") (simp_all add: s' ev sent_into_def)
next
  fix env
  assume "ev = Socket_ready env" "s' = s"
  then show ?thesis by simp
next
  fix env j
  assume ev: "ev = Socket_ready env" and j: "j < length (send_times s)"
    and acc: "accepted_for e ev s j"
    and s': "s' = s\<lparr>send_times := (send_times s)[j := 0]\<rparr>"
  from j acc show ?thesis
    by (cases "i = j") (simp_all add: s')
qed

text \<open>
  Once the counter has passed 65539, no 16-bit sequence number lies above \<open>seq - 5\<close>:
  \<open>on_recv\<close> drops every datagram.
\<close>

lemma on_recv_after_wrap:
  assumes "65540 \<le> seq s" and "on_recv e env s = Inr (s', out)"
  shows "s' = s \<and> out = []"
proof -
  have "\<not> accepted_for e (Socket_ready env) s i" for i
  proof -
    have "uint (word_cat (drop 20 (re_buf env) ! 6) (drop 20 (re_buf env) ! 7) :: u16) < 65536"
      using uint_lt2p [of "word_cat (drop 20 (re_buf env) ! 6) (drop 20 (re_buf env) ! 7) :: u16"]
      by simp
    with assms(1) show ?thesis
      by (auto simp add: accepted_for_def Let_def)
  qed
  with on_recv_cases [OF assms(2)] show ?thesis by blast
qed

section \<open>The checksum: folding, byte order, self-consistency\<close>

lemma mod_65535_rest: "r < 65535 \<Longrightarrow> (65535 * q + r) mod 65535 = (r::nat)"
  by simp

lemma canon_bounds: "canon n \<le> 65535" "canon n = 0 \<longleftrightarrow> n = 0"
proof -
  have "(n - Suc 0) mod 65535 \<le> 65534"
    using mod_less_divisor [of 65535 "n - Suc 0"] by linarith
  then show "canon n \<le> 65535" by (simp add: canon_def)
  show "canon n = 0 \<longleftrightarrow> n = 0" by (simp add: canon_def)
qed

lemma two_folds:
  assumes "S < 4294967296"
  shows "(S div 65536 + S mod 65536 + (S div 65536 + S mod 65536) div 65536) mod 65536 = canon S"
proof -
  define h l where "h = S div 65536" and "l = S mod 65536"
  have S: "S = 65536 * h + l" and l: "l < 65536" and h: "h < 65536"
    using assms by (auto simp add: h_def l_def)
  show ?thesis
  proof (cases "h + l < 65536")
    case True
    then have d: "(h + l) div 65536 = 0" by simp
    show ?thesis
    proof (cases "S = 0")
      case True
      then show ?thesis by (simp add: canon_def)
    next
      case False
      with S have pos: "1 \<le> h + l" by arith
      then have eq: "S - 1 = 65535 * h + (h + l - 1)" using S by simp
      have r: "h + l - 1 < 65535" using True by simp
      have "(S - 1) mod 65535 = (65535 * h + (h + l - 1)) mod 65535"
        by (simp only: eq)
      also have "\<dots> = h + l - 1"
        using r by (rule mod_65535_rest)
      finally have "(S - 1) mod 65535 = h + l - 1" .
      with False True pos d show ?thesis
        unfolding h_def [symmetric] l_def [symmetric] by (simp add: canon_def)
    qed
  next
    case False
    with h l have d: "(h + l) div 65536 = 1" by simp
    from False S have nz: "S \<noteq> 0" by arith
    from False have eq: "S - 1 = 65535 * (h + 1) + (h + l - 65536)" using S by simp
    have r: "h + l - 65536 < 65535" using h l by simp
    have "(S - 1) mod 65535 = (65535 * (h + 1) + (h + l - 65536)) mod 65535"
      by (simp only: eq)
    also have "\<dots> = h + l - 65536"
      using r by (rule mod_65535_rest)
    finally have "(S - 1) mod 65535 = h + l - 65536" .
    moreover have "(h + l + 1) mod 65536 = h + l + 1 - 65536"
      using False h l by (simp add: mod_if)
    ultimately show ?thesis
      using nz False d unfolding h_def [symmetric] l_def [symmetric] by (simp add: canon_def)
  qed
qed

lemma ucast_not_u32: "(ucast (NOT (c :: u32)) :: u16) = NOT (ucast c)"
  by (rule bit_word_eqI) (auto simp add: bit_simps)

lemma unat_not_u16: "unat (NOT (w :: u16)) = 65535 - unat w"
proof -
  have "NOT w = - 1 - w" by (simp add: not_eq_complement)
  moreover have "unat (- 1 - w) = unat (- 1 :: u16) - unat w"
    by (rule unat_sub) simp
  moreover have "unat (- 1 :: u16) = 65535"
    by (simp add: unsigned_minus_1_eq_mask mask_eq_exp_minus_1)
  ultimately show ?thesis by simp
qed

lemma unat_ucast_u32_u16: "unat (ucast (c :: u32) :: u16) = unat c mod 65536"
  by (simp add: unsigned_ucast_eq take_bit_eq_mod)


lemma unat_fold_complement:
  "unat (fold_complement c) = 65535 - canon (unat c)"
proof -
  define S where "S = unat c"
  have S: "S < 4294967296" unfolding S_def by (rule unat_u32_less)
  define c1 where "c1 = drop_bit 16 c + (c AND 0xffff)"
  define c2 where "c2 = c1 + drop_bit 16 c1"
  have d: "unat (drop_bit 16 c) = S div 65536"
    unfolding S_def by (subst unat_drop_bit_eq) (simp add: drop_bit_eq_div)
  have m: "unat (c AND 0xffff) = S mod 65536"
  proof -
    have "c AND 0xffff = take_bit 16 c"
      by (simp add: take_bit_eq_mask mask_eq_exp_minus_1)
    then have "unat (c AND 0xffff) = take_bit 16 (unat c)"
      by (simp only: unsigned_take_bit_eq)
    then show ?thesis
      unfolding S_def by (simp add: take_bit_eq_mod)
  qed
  have u1: "unat c1 = S div 65536 + S mod 65536"
    using S unfolding c1_def by (simp add: unat_word_ariths d m)
  have d1: "unat (drop_bit 16 c1) = unat c1 div 65536"
    by (subst unat_drop_bit_eq) (simp add: drop_bit_eq_div)
  have u2: "unat c2 = unat c1 + unat c1 div 65536"
    using S unfolding c2_def by (simp add: unat_word_ariths d1 u1)
  have "unat (ucast (NOT c2) :: u16) = 65535 - unat c2 mod 65536"
    by (simp only: ucast_not_u32 unat_not_u16 unat_ucast_u32_u16)
  also have "unat c2 mod 65536 = canon S"
    unfolding u2 u1 using S by (rule two_folds)
  finally show ?thesis
    by (simp add: fold_complement_def Let_def c1_def [symmetric] c2_def [symmetric] S_def)
qed

lemma canon_fold_step:
  assumes "65536 \<le> n"
  shows "canon (n div 65536 + n mod 65536) = canon n"
proof -
  define h l where "h = n div 65536" and "l = n mod 65536"
  have n: "n = 65536 * h + l" and l: "l < 65536" and h: "1 \<le> h"
    using assms by (auto simp add: h_def l_def)
  have "(65535 * h + (h + l - 1)) mod 65535 = (h + l - 1) mod 65535"
    by (rule mod_mult_self4)
  moreover have "n - 1 = 65535 * h + (h + l - 1)"
    using n h by simp
  ultimately have "(n - 1) mod 65535 = (h + l - 1) mod 65535" by simp
  with h n show ?thesis
    unfolding canon_def h_def [symmetric] l_def [symmetric] by simp
qed

lemma fold_carries_canon: "fold_carries n = canon n"
proof (induction n rule: fold_carries.induct)
  case (1 n)
  show ?case
  proof (cases "n < 65536")
    case True
    then show ?thesis
      by (subst fold_carries.simps) (simp add: canon_def)
  next
    case False
    with 1 have "fold_carries (n div 65536 + n mod 65536) = canon n"
      by (simp add: canon_fold_step)
    with False show ?thesis
      by (subst fold_carries.simps) simp
  qed
qed

lemma canon_mod: "canon n mod 65535 = n mod 65535"
proof (cases "n = 0")
  case True
  then show ?thesis by (simp add: canon_def)
next
  case False
  then have "canon n mod 65535 = ((n - 1) mod 65535 + 1) mod 65535"
    by (simp add: canon_def)
  also have "\<dots> = (n - 1 + 1) mod 65535"
    by (rule mod_add_left_eq)
  finally show ?thesis using False by simp
qed

lemma same_residue_same_value:
  assumes "1 \<le> a" "a \<le> 65535" "1 \<le> b" "b \<le> 65535" "a mod 65535 = b mod (65535::nat)"
  shows "a = b"
proof (cases "a = 65535")
  case True
  with assms show ?thesis by (cases "b = 65535") simp_all
next
  case False
  with assms show ?thesis by (cases "b = 65535") simp_all
qed

lemma swapn_times_256: "256 * x = 65535 * (x div 256) + swapn x"
proof -
  have "x = 256 * (x div 256) + x mod 256" by simp
  then have "256 * x = 65536 * (x div 256) + 256 * (x mod 256)" by linarith
  then show ?thesis by (simp add: swapn_def)
qed

lemma swapn_mod: "swapn x mod 65535 = (256 * x) mod 65535"
  by (simp add: swapn_times_256)

lemma swapn_less: "x < 65536 \<Longrightarrow> swapn x < 65536"
proof -
  assume "x < 65536"
  then have "x div 256 < 256" by simp
  moreover have "x mod 256 < 256" by simp
  ultimately show ?thesis unfolding swapn_def by linarith
qed

lemma swapn_zero: "swapn x = 0 \<longleftrightarrow> x = 0"
proof
  assume "swapn x = 0"
  then have "x mod 256 = 0" "x div 256 = 0" by (simp_all add: swapn_def)
  then show "x = 0" by (metis mult_div_mod_eq add.right_neutral mult_zero_right)
qed (simp add: swapn_def)

lemma swapn_complement:
  assumes "x \<le> 65535"
  shows "swapn (65535 - x) = 65535 - swapn x"
proof -
  define h l where "h = x div 256" and "l = x mod 256"
  have x: "x = 256 * h + l" and l: "l < 256" and h: "h < 256"
    using assms by (auto simp add: h_def l_def)
  have c: "65535 - x = 256 * (255 - h) + (255 - l)"
    using x l h by simp
  have "(256 * (255 - h) + (255 - l)) mod 256 = (255 - l) mod 256"
    by (rule mod_mult_self4)
  moreover have "(256 * (255 - h) + (255 - l)) div 256 = (255 - h) + (255 - l) div 256"
    by (rule div_mult_self4) simp
  ultimately have "(65535 - x) div 256 = 255 - h" "(65535 - x) mod 256 = 255 - l"
    using l by (simp_all only: c) simp_all
  then have "swapn (65535 - x) = (255 - l) * 256 + (255 - h)"
    by (simp add: swapn_def)
  moreover have "swapn x = l * 256 + h"
    by (simp add: swapn_def h_def l_def)
  ultimately show ?thesis using l h by simp
qed

lemma swapn_div_mod:
  assumes "x < 65536"
  shows "swapn x mod 256 = x div 256" "swapn x div 256 = x mod 256"
proof -
  have "x div 256 < 256" using assms by simp
  then show "swapn x mod 256 = x div 256" "swapn x div 256 = x mod 256"
    by (simp_all add: swapn_def)
qed

lemma canon_swapn:
  assumes "Sl mod 65535 = (256 * Sb) mod 65535" and "Sl = 0 \<longleftrightarrow> Sb = 0"
  shows "canon Sl = swapn (canon Sb)"
proof (cases "Sb = 0")
  case True
  with assms show ?thesis by (simp add: canon_def swapn_def)
next
  case False
  with assms have nz: "Sl \<noteq> 0" by simp
  have b: "1 \<le> canon Sb" "canon Sb \<le> 65535"
    using False canon_bounds [of Sb] by simp_all
  then have sb: "1 \<le> swapn (canon Sb)" "swapn (canon Sb) \<le> 65535"
    using swapn_less [of "canon Sb"] swapn_zero [of "canon Sb"] by simp_all
  have a: "1 \<le> canon Sl" "canon Sl \<le> 65535"
    using nz canon_bounds [of Sl] by simp_all
  have "swapn (canon Sb) mod 65535 = (256 * canon Sb) mod 65535"
    by (rule swapn_mod)
  also have "\<dots> = (256 * (canon Sb mod 65535)) mod 65535"
    by (simp add: mod_mult_right_eq)
  also have "\<dots> = (256 * Sb) mod 65535"
    by (simp add: canon_mod mod_mult_right_eq)
  also have "\<dots> = canon Sl mod 65535"
    by (simp add: assms(1) canon_mod)
  finally have "canon Sl mod 65535 = swapn (canon Sb) mod 65535" by simp
  with a sb show ?thesis by (rule same_residue_same_value)
qed

lemma sum_loop_words:
  "0 \<le> i \<Longrightarrow> i \<le> len \<Longrightarrow> even (len - i) \<Longrightarrow> len \<le> int (length buf) \<Longrightarrow>
   sum_loop e buf len i acc
     = acc + of_nat (sum_list (words16 e (drop (nat i) (take (nat len) buf))))"
proof (induction e buf len i acc rule: sum_loop.induct)
  case (1 e buf len i acc)
  show ?case
  proof (cases "i < len")
    case False
    with "1.prems" show ?thesis
      by (subst sum_loop.simps) simp
  next
    case True
    with "1.prems" have i2: "i + 2 \<le> len" by presburger
    let ?t = "take (nat len) buf"
    have n0: "nat i < length ?t" and n1: "Suc (nat i) < length ?t"
      using "1.prems" i2 by simp_all
    have dr: "drop (nat i) ?t = ?t ! nat i # ?t ! Suc (nat i) # drop (nat (i + 2)) ?t"
    proof -
      have "drop (nat i) ?t = ?t ! nat i # drop (Suc (nat i)) ?t"
        using n0 by (rule Cons_nth_drop_Suc [symmetric])
      also have "drop (Suc (nat i)) ?t = ?t ! Suc (nat i) # drop (Suc (Suc (nat i))) ?t"
        using n1 by (rule Cons_nth_drop_Suc [symmetric])
      also have "Suc (Suc (nat i)) = nat (i + 2)"
        using "1.prems" by simp
      finally show ?thesis .
    qed
    have nth: "?t ! nat i = buf ! nat i" "?t ! Suc (nat i) = buf ! nat (i + 1)"
      using "1.prems" i2 by (simp_all add: nat_add_distrib)
    have IH: "sum_loop e buf len (i + 2)
                (acc + ucast (load_u16 e (buf ! nat i) (buf ! nat (i + 1))))
              = acc + ucast (load_u16 e (buf ! nat i) (buf ! nat (i + 1)))
                + of_nat (sum_list (words16 e (drop (nat (i + 2)) ?t)))"
      using "1.IH" [OF True] "1.prems" i2 by simp
    show ?thesis
      using True by (subst sum_loop.simps) (simp add: IH dr nth)
  qed
qed


lemma words16_bound: "sum_list (words16 e bs) \<le> 65535 * ((length bs + 1) div 2)"
proof (induction e bs rule: words16.induct)
  case (1 e b0 b1 bs)
  have "unat (load_u16 e b0 b1) \<le> 65535"
    using unat_u16_less [of "load_u16 e b0 b1"] by simp
  with 1 show ?case by simp
next
  case (2 e b)
  have "unat (load_u16 e b 0) \<le> 65535"
    using unat_u16_less [of "load_u16 e b 0"] by simp
  then show ?case by simp
next
  case (3 e)
  show ?case by simp
qed

lemma words16_sum_less:
  assumes "length bs \<le> 131072"
  shows "sum_list (words16 e bs) < 4294967296"
proof -
  from assms have "(length bs + 1) div 2 \<le> 65536" by simp
  then have "65535 * ((length bs + 1) div 2) \<le> 65535 * 65536" by simp
  with words16_bound [of e bs] show ?thesis by simp
qed

lemma smod_2_even: "0 \<le> len \<Longrightarrow> even len \<Longrightarrow> len smod 2 \<noteq> (1::int)"
  by (simp add: smod_int_alt_def sgn_if)

lemma sum_loop_value:
  assumes "even (length bs)" and "length bs \<le> 131072"
  shows "unat (fold_complement (sum_loop e bs (int (length bs)) 0 0))
           = 65535 - canon (sum_list (words16 e bs))"
proof -
  have "sum_loop e bs (int (length bs)) 0 0 = of_nat (sum_list (words16 e bs))"
    using assms(1) sum_loop_words [of 0 "int (length bs)" bs e 0] by simp
  moreover have "unat (of_nat (sum_list (words16 e bs)) :: u32) = sum_list (words16 e bs)"
    using words16_sum_less [OF assms(2), of e] by (simp add: unat_of_nat)
  ultimately show ?thesis
    by (simp add: unat_fold_complement)
qed

lemma swapn_sum:
  "256 * sum_list ws = 65535 * sum_list (map (\<lambda>w. w div 256) ws) + sum_list (map swapn ws)"
proof (induction ws)
  case Nil
  show ?case by simp
next
  case (Cons w ws)
  from swapn_times_256 [of w] Cons show ?case by simp
qed

lemma swapn_sum_mod: "sum_list (map swapn ws) mod 65535 = (256 * sum_list ws) mod 65535"
  by (simp add: swapn_sum)

lemma swapn_sum_zero: "sum_list (map swapn ws) = 0 \<longleftrightarrow> sum_list ws = 0"
  by (induction ws) (simp_all add: swapn_zero)

lemma swapn_bytes: "swapn (unat (a::byte) * 256 + unat (b::byte)) = unat b * 256 + unat a"
  using unat_byte_less [of a] unat_byte_less [of b] by (simp add: swapn_def)

lemma words16_little_big:
  "even (length bs) \<Longrightarrow> words16 Little_endian bs = map swapn (words16 Big_endian bs)"
proof (induction bs rule: induct_list012)
  case (3 b0 b1 bs)
  then show ?case
    by (simp add: load_u16_def unat_word_cat_bytes swapn_bytes)
qed simp_all

lemma canon_little_big:
  assumes "even (length bs)"
  shows "canon (sum_list (words16 Little_endian bs))
           = swapn (canon (sum_list (words16 Big_endian bs)))"
  by (rule canon_swapn) (simp_all add: words16_little_big [OF assms] swapn_sum_mod swapn_zero)

lemma unat_inet_checksum:
  "unat (inet_checksum bs) = 65535 - canon (sum_list (words16 Big_endian bs))"
proof -
  have "canon (sum_list (words16 Big_endian bs)) < 65536"
    using canon_bounds(1) [of "sum_list (words16 Big_endian bs)"] by simp
  then show ?thesis
    by (simp add: inet_checksum_def ones_sum_def fold_carries_canon unat_not_u16 unat_of_nat)
qed

lemma checksum_bytes_network_order:
  assumes "even (length bs)" and "length bs \<le> 131072"
  shows "store_u16 e (fold_complement (sum_loop e bs (int (length bs)) 0 0))
           = [ucast (drop_bit 8 (inet_checksum bs)), ucast (inet_checksum bs)]"
proof (cases e)
  case Big_endian
  have "fold_complement (sum_loop Big_endian bs (int (length bs)) 0 0) = inet_checksum bs"
    by (simp add: word_unat_eq_iff sum_loop_value [OF assms] unat_inet_checksum)
  with Big_endian show ?thesis by (simp add: store_u16_def)
next
  case Little_endian
  define c where "c = fold_complement (sum_loop Little_endian bs (int (length bs)) 0 0)"
  define C where "C = inet_checksum bs"
  have le: "canon (sum_list (words16 Big_endian bs)) \<le> 65535"
    by (rule canon_bounds)
  have "unat c = 65535 - swapn (canon (sum_list (words16 Big_endian bs)))"
    by (simp add: c_def sum_loop_value [OF assms] canon_little_big [OF assms(1)])
  also have "\<dots> = swapn (65535 - canon (sum_list (words16 Big_endian bs)))"
    using le by (rule swapn_complement [symmetric])
  also have "\<dots> = swapn (unat C)"
    by (simp add: C_def unat_inet_checksum)
  finally have uc: "unat c = swapn (unat C)" .
  have "unat C div 256 < 256" "unat c div 256 < 256"
    using unat_u16_less [of C] unat_u16_less [of c] by simp_all
  then have "ucast c = (ucast (drop_bit 8 C) :: byte)" "(ucast (drop_bit 8 c) :: byte) = ucast C"
    using swapn_div_mod [OF unat_u16_less [of C]]
    by (simp_all add: word_unat_eq_iff unat_low_byte unat_drop_bit_8 uc)
  with Little_endian show ?thesis
    by (simp add: store_u16_def c_def [symmetric] C_def [symmetric])
qed

lemma canon_multiple: "canon (65535 * Suc q) = 65535"
proof -
  have "65535 * Suc q - 1 = 65535 * q + 65534" by simp
  then have "(65535 * Suc q - 1) mod 65535 = 65534" by (simp only: mod_65535_rest)
  then show ?thesis by (simp add: canon_def)
qed

lemma canon_complement_sum: "canon (n + (65535 - canon n)) = 65535"
proof (cases "n = 0")
  case True
  then show ?thesis using canon_multiple [of 0] by (simp add: canon_def)
next
  case False
  define q r where "q = (n - 1) div 65535" and "r = (n - 1) mod 65535"
  have n: "n = 65535 * q + r + 1" and r: "r < 65535"
    using False by (simp_all add: q_def r_def)
  have "canon n = r + 1" using False by (simp add: canon_def r_def)
  with n r have "n + (65535 - canon n) = 65535 * Suc q" by simp
  then show ?thesis by (simp only: canon_multiple)
qed

lemma checksum_self_consistent_even:
  assumes "even (length bs)" and "4 \<le> length bs" and "length bs \<le> 131072"
    and "bs ! 2 = 0" and "bs ! 3 = 0"
  shows "\<exists>c. icmp_checksum e bs (int (length bs)) = Inr c \<and>
             ones_sum e (write_bytes 2 (store_u16 e c) bs) = 65535"
proof -
  define c where "c = fold_complement (sum_loop e bs (int (length bs)) 0 0)"
  from assms(2) obtain b0 t0 where t0: "bs = b0 # t0" by (cases bs) auto
  with assms(2) obtain b1 t1 where t1: "t0 = b1 # t1" by (cases t0) auto
  with t0 assms(2) obtain b2 t2 where t2: "t1 = b2 # t2" by (cases t1) auto
  with t0 t1 assms(2) obtain b3 rest where t3: "t2 = b3 # rest" by (cases t2) auto
  from assms(4,5) have bs: "bs = b0 # b1 # 0 # 0 # rest"
    by (simp add: t0 t1 t2 t3)
  obtain c0 c1 where cs: "store_u16 e c = [c0, c1]"
    by (cases e) (simp_all add: store_u16_def)
  have z: "load_u16 e 0 0 = 0"
    by (cases e) (simp_all add: load_u16_def word_cat_eq)
  have ck: "icmp_checksum e bs (int (length bs)) = Inr c"
    using assms(1) by (simp add: icmp_checksum_even smod_2_even c_def)
  have uc: "unat c = 65535 - canon (sum_list (words16 e bs))"
    unfolding c_def using assms(1,3) by (rule sum_loop_value)
  have "sum_list (words16 e (write_bytes 2 (store_u16 e c) bs))
          = sum_list (words16 e bs) + unat c"
    by (simp add: bs cs write_bytes_def z load_store_u16 [OF cs])
  then have "ones_sum e (write_bytes 2 (store_u16 e c) bs) = 65535"
    by (simp add: ones_sum_def fold_carries_canon uc canon_complement_sum)
  with ck show ?thesis by blast
qed

text \<open>
  What \<open>icmp_checksum\<close> computes for an odd length of at least 3: the checksum of the buffer
  without its last byte, extended by the byte before the last one and a zero byte.
\<close>

lemma words16_append:
  "even (length xs) \<Longrightarrow> words16 e (xs @ ys) = words16 e xs @ words16 e ys"
  by (induction xs rule: induct_list012) simp_all

lemma odd_length_checksum_value:
  assumes "3 \<le> len" and "odd len" and "len \<le> int (length buf)"
  shows "icmp_checksum e buf len
           = icmp_checksum e (take (nat (len - 1)) buf @ [buf ! nat (len - 2), 0]) (len + 1)"
proof -
  let ?n = "nat (len - 1)"
  let ?pre = "take ?n buf"
  let ?x = "buf ! nat (len - 2)"
  let ?ext = "?pre @ [?x, 0]"
  have n: "int ?n = len - 1" "even ?n" "?n \<le> length buf" "length ?pre = ?n"
    using assms by (simp_all add: even_nat_iff)
  have odd1: "len smod 2 = 1"
    using assms(1,2) by (simp add: smod_int_alt_def sgn_if odd_iff_mod_2_eq_one)
  have even1: "(len + 1) smod 2 \<noteq> 1"
    using assms(1,2) by (intro smod_2_even) simp_all
  have lhs: "sum_loop e buf (len - 1) 0 (ucast (load_u16 e ?x 0))
      = ucast (load_u16 e ?x 0) + of_nat (sum_list (words16 e ?pre))"
    using sum_loop_words [of 0 "len - 1" buf e "ucast (load_u16 e ?x 0)"] assms n by simp
  have "sum_loop e ?ext (len + 1) 0 0 = of_nat (sum_list (words16 e ?ext))"
    using sum_loop_words [of 0 "len + 1" ?ext e 0] assms n by simp
  also have "\<dots> = of_nat (sum_list (words16 e ?pre)) + ucast (load_u16 e ?x 0)"
    using n by (simp add: words16_append)
  finally have rhs: "sum_loop e ?ext (len + 1) 0 0
      = ucast (load_u16 e ?x 0) + of_nat (sum_list (words16 e ?pre))"
    by (simp add: add.commute)
  have "len - 1 - 1 = len - 2" by simp
  with assms n odd1 even1 show ?thesis
    by (simp add: icmp_checksum_def Let_def lhs rhs)
qed

section \<open>The claims\<close>

text \<open>
  Claim C8. For a buffer of odd length, \<open>icmp_checksum\<close> should take the final byte as one
  more 16-bit word completed by a zero byte, so that the checksum equals that of the buffer
  extended with one zero byte. The source decrements \<open>len\<close> before it reads
  \<^verbatim>\<open>buf + len - 1\<close> and so pads the byte before the last one: on a 17-byte message whose
  last byte is \<open>0x2A\<close> and whose byte 15 is 0, the result is the checksum of the first 16
  bytes alone, and differs from the checksum of the 18-byte extension, on either byte order.
  Lemma \<open>odd_length_checksum_value\<close> says what the source computes for every odd length.
\<close>

theorem icmp_checksum_odd_reads_wrong_byte:
  "icmp_checksum Little_endian [0,0,0,0, 0,1,0,1, 0,0,0,0,0,0,0,0, 0x2A] 17 = Inr 0xFDFF \<and>
   icmp_checksum Little_endian [0,0,0,0, 0,1,0,1, 0,0,0,0,0,0,0,0, 0x2A, 0] 18 = Inr 0xFDD5 \<and>
   icmp_checksum Big_endian [0,0,0,0, 0,1,0,1, 0,0,0,0,0,0,0,0, 0x2A] 17 = Inr 0xFFFD \<and>
   icmp_checksum Big_endian [0,0,0,0, 0,1,0,1, 0,0,0,0,0,0,0,0, 0x2A, 0] 18 = Inr 0xD5FD"
  by code_simp

text \<open>
  Claim C9. A datagram whose ICMP portion is shorter than 16 bytes should be rejected by the
  length guard of \<open>parse_reply\<close> before any field is read, also when the datagram is shorter
  than the IP header and the length passed is negative. The guard compares \<open>len\<close> with
  \<^verbatim>\<open>sizeof(icmp_t)\<close> as a \<^verbatim>\<open>size_t\<close>, so a negative \<open>len\<close> passes it: for \<open>len = -10\<close> the
  outcome depends on the type field (a type other than 0 is rejected by the second check),
  and with type and code 0 the call does not return \<open>-1\<close> but goes on to \<^verbatim>\<open>malloc\<close> and
  \<^verbatim>\<open>memcpy\<close> with that length. \<open>on_recv\<close> reaches this with a datagram of 10 bytes.
\<close>

theorem parse_reply_negative_length_not_rejected:
  "parse_reply e (replicate 16 0) (- 10) = Inl Undefined_behaviour \<and>
   parse_reply e (8 # replicate 15 0) (- 10) = Inr Ret_fail \<and>
   on_recv e \<lparr>re_nrecv = 10, re_buf = replicate 1500 0, re_pid = 1, re_now = 1\<rparr> s
     = Inl Undefined_behaviour"
  by (simp add: on_recv_def parse_reply_def to_size_t_def sizeof_icmp_t_def read_icmp_def
      IPV4_HEADER_SIZE_def TTL_OFFSET_def)

theorem parse_reply_negative_length_not_rejected_witness:
  "parse_reply Little_endian (replicate 16 0) (- 10) = Inl Undefined_behaviour \<and>
   parse_reply Little_endian (8 # replicate 15 0) (- 10) = Inr Ret_fail \<and>
   on_recv Little_endian \<lparr>re_nrecv = 10, re_buf = replicate 1500 0, re_pid = 1, re_now = 1\<rparr>
     init_session = Inl Undefined_behaviour"
  by (rule parse_reply_negative_length_not_rejected [of Little_endian init_session])

text \<open>
  Claim C1. Resolving a reply should give no match (no report, no slot change) when the
  sequence number is at most \<open>seq - 5\<close> and also when the slot \<open>sequence mod 5\<close> is empty, so
  that a second reply for a sequence already resolved is dropped. \<open>on_recv\<close> has the first
  check and not the second: probe 3 was sent at 1000 ms, a valid reply at 1042 ms is
  reported with 42 ms and clears slot 3; the same reply arriving again at 1050 ms finds the
  slot empty and is reported once more, with the elapsed time \<open>1050 - 0\<close>.
\<close>

theorem on_recv_reports_duplicate_reply:
  "on_recv Little_endian
     \<lparr>re_nrecv = 36, re_buf = recv_buffer [0,0,0xED,0xC8, 0x12,0x34, 0,3, 0,0,0,0,0,0,0,0],
      re_pid = 0x1234, re_now = 1042\<rparr>
     \<lparr>seq = 3, send_times = [0, 0, 0, 1000, 0]\<rparr>
   = Inr (\<lparr>seq = 3, send_times = [0, 0, 0, 0, 0]\<rparr>, [Reply_line 3 64 42]) \<and>
   on_recv Little_endian
     \<lparr>re_nrecv = 36, re_buf = recv_buffer [0,0,0xED,0xC8, 0x12,0x34, 0,3, 0,0,0,0,0,0,0,0],
      re_pid = 0x1234, re_now = 1050\<rparr>
     \<lparr>seq = 3, send_times = [0, 0, 0, 0, 0]\<rparr>
   = Inr (\<lparr>seq = 3, send_times = [0, 0, 0, 0, 0]\<rparr>, [Reply_line 3 64 1050]) \<and>
   on_recv Big_endian
     \<lparr>re_nrecv = 36, re_buf = recv_buffer [0,0,0xED,0xC8, 0x12,0x34, 0,3, 0,0,0,0,0,0,0,0],
      re_pid = 0x1234, re_now = 1042\<rparr>
     \<lparr>seq = 3, send_times = [0, 0, 0, 1000, 0]\<rparr>
   = Inr (\<lparr>seq = 3, send_times = [0, 0, 0, 0, 0]\<rparr>, [Reply_line 3 64 42]) \<and>
   on_recv Big_endian
     \<lparr>re_nrecv = 36, re_buf = recv_buffer [0,0,0xED,0xC8, 0x12,0x34, 0,3, 0,0,0,0,0,0,0,0],
      re_pid = 0x1234, re_now = 1050\<rparr>
     \<lparr>seq = 3, send_times = [0, 0, 0, 0, 0]\<rparr>
   = Inr (\<lparr>seq = 3, send_times = [0, 0, 0, 0, 0]\<rparr>, [Reply_line 3 64 1050])"
  by code_simp

theorem on_recv_reports_duplicate_reply_witness:
  "on_recv Little_endian
     \<lparr>re_nrecv = 36, re_buf = recv_buffer [0,0,0xED,0xC8, 0x12,0x34, 0,3, 0,0,0,0,0,0,0,0],
      re_pid = 0x1234, re_now = 1042\<rparr>
     \<lparr>seq = 3, send_times = [0, 0, 0, 1000, 0]\<rparr>
   = Inr (\<lparr>seq = 3, send_times = [0, 0, 0, 0, 0]\<rparr>, [Reply_line 3 64 42])"
  using on_recv_reports_duplicate_reply by (rule conjunct1)

text \<open>
  Claim C7. Correlation should survive the wrap of the 16-bit sequence number: a reply that
  carries the wrapped sequence of a probe in flight should pass the staleness check and
  find its slot. The counter \<open>seq\<close> is an \<^verbatim>\<open>int\<close> that is never reduced, while the request
  and the reply carry it cut to 16 bits, and \<open>on_recv\<close> compares the two directly. The tick
  that takes \<open>seq\<close> from 65535 to 65536 sends a probe with sequence 0 on the wire and
  records it in slot \<open>65536 mod 5 = 1\<close>; the valid reply to that probe is dropped as stale,
  since \<open>0 \<le> 65536 - 5\<close>, and its slot would have been \<open>0 mod 5 = 0\<close>. From 65540 on
  no reply at all is accepted (lemma \<open>on_recv_after_wrap\<close>).
\<close>

theorem on_recv_drops_reply_after_wrap:
  "main_step Little_endian
     (Timer_ready \<lparr>te_now = 1000, te_pid = 0x1234, te_time = 0,
                   te_read_ok = True, te_sendto_ok = True\<rparr>)
     \<lparr>seq = 65535, send_times = [0, 0, 0, 0, 0]\<rparr>
   = Inr (\<lparr>seq = 65536, send_times = [0, 1000, 0, 0, 0]\<rparr>,
          [Sendto [8,0,0xE5,0xCB, 0x12,0x34, 0,0, 0,0,0,0,0,0,0,0]]) \<and>
   on_recv Little_endian
     \<lparr>re_nrecv = 36, re_buf = recv_buffer [0,0,0xED,0xCB, 0x12,0x34, 0,0, 0,0,0,0,0,0,0,0],
      re_pid = 0x1234, re_now = 1042\<rparr>
     \<lparr>seq = 65536, send_times = [0, 1000, 0, 0, 0]\<rparr>
   = Inr (\<lparr>seq = 65536, send_times = [0, 1000, 0, 0, 0]\<rparr>, []) \<and>
   main_step Big_endian
     (Timer_ready \<lparr>te_now = 1000, te_pid = 0x1234, te_time = 0,
                   te_read_ok = True, te_sendto_ok = True\<rparr>)
     \<lparr>seq = 65535, send_times = [0, 0, 0, 0, 0]\<rparr>
   = Inr (\<lparr>seq = 65536, send_times = [0, 1000, 0, 0, 0]\<rparr>,
          [Sendto [8,0,0xE5,0xCB, 0x12,0x34, 0,0, 0,0,0,0,0,0,0,0]]) \<and>
   on_recv Big_endian
     \<lparr>re_nrecv = 36, re_buf = recv_buffer [0,0,0xED,0xCB, 0x12,0x34, 0,0, 0,0,0,0,0,0,0,0],
      re_pid = 0x1234, re_now = 1042\<rparr>
     \<lparr>seq = 65536, send_times = [0, 1000, 0, 0, 0]\<rparr>
   = Inr (\<lparr>seq = 65536, send_times = [0, 1000, 0, 0, 0]\<rparr>, [])"
  by code_simp

theorem on_recv_drops_reply_after_wrap_witness:
  "on_recv Little_endian
     \<lparr>re_nrecv = 36, re_buf = recv_buffer [0,0,0xED,0xCB, 0x12,0x34, 0,0, 0,0,0,0,0,0,0,0],
      re_pid = 0x1234, re_now = 1042\<rparr>
     \<lparr>seq = 65536, send_times = [0, 1000, 0, 0, 0]\<rparr>
   = Inr (\<lparr>seq = 65536, send_times = [0, 1000, 0, 0, 0]\<rparr>, [])"
  using on_recv_drops_reply_after_wrap by simp

text \<open>
  Claim C4. Serialising any echo request and parsing the 16 bytes again should return 0 and
  give back identifier, sequence number and timestamp. An echo request has type 8, and the
  second check of \<open>parse_reply\<close> rejects every type other than 0: the request that
  \<open>on_timeout\<close> builds, serialised, is rejected.
\<close>

theorem echo_request_does_not_parse:
  "icmp_serialize Little_endian
     \<lparr>icmp_type = 8, icmp_code = 0, icmp_cksum = 0, icmp_id = 0x1234, icmp_seq = 1, icmp_ts = 0\<rparr>
     (replicate 16 0) 16
     = Inr [8,0,0xE5,0xCA, 0x12,0x34, 0,1, 0,0,0,0,0,0,0,0] \<and>
   parse_reply Little_endian [8,0,0xE5,0xCA, 0x12,0x34, 0,1, 0,0,0,0,0,0,0,0] 16 = Inr Ret_fail"
  by code_simp

text \<open>
  Claim C4 as amended. For every record and every 16-byte buffer, \<open>icmp_serialize\<close> returns
  a packet; when type and code of the record are both 0 (an echo reply), \<open>parse_reply\<close> on
  that packet returns 0 and the record it yields has the type, code, identifier, sequence
  number and timestamp of the original (it differs at most in the checksum field, which
  \<open>icmp_serialize\<close> ignores and computes); for any other type or code \<open>parse_reply\<close>
  returns \<open>-1\<close>.
\<close>

theorem serialize_parse_roundtrip:
  assumes "length buf = 16"
  shows "\<exists>pkt. icmp_serialize e req buf 16 = Inr pkt \<and>
     (if icmp_type req = 0 \<and> icmp_code req = 0
      then \<exists>r. parse_reply e pkt 16 = Inr (Ret_ok r) \<and> r\<lparr>icmp_cksum := icmp_cksum req\<rparr> = req
      else parse_reply e pkt 16 = Inr Ret_fail)"
proof -
  define c where "c = fold_complement (sum_loop e (wire_packet e req 0) 16 0 0)"
  obtain t0 t1 t2 t3 t4 t5 t6 t7
    where ts: "store_u64 e (icmp_ts req) = [t0, t1, t2, t3, t4, t5, t6, t7]"
    by (cases e) (simp_all add: store_u64_def store_le_def)
  obtain c0 c1 where cs: "store_u16 e c = [c0, c1]"
    by (cases e) (simp_all add: store_u16_def)
  have ld: "load_u64 e [t0, t1, t2, t3, t4, t5, t6, t7] = icmp_ts req"
    using load_store_u64 [of e "icmp_ts req"] by (simp add: ts)
  have lc: "load_u16 e c0 c1 = c"
    using cs by (rule load_store_u16)
  have ser: "icmp_serialize e req buf 16 =
      Inr (write_bytes 2 (store_u16 e c) (wire_packet e req 0))"
    using assms by (simp add: icmp_serialize_bytes c_def)
  have ck: "icmp_checksum e (wire_packet e req 0) 16 = Inr c"
    by (simp add: icmp_checksum_even length_wire_packet smod_int_alt_def c_def)
  have zero: "write_bytes 2 [0, 0] (take 16 (write_bytes 2 [c0, c1] (wire_packet e req 0)))
                = wire_packet e req 0"
    by (simp add: write_bytes_def wire_packet_def ts)
  show ?thesis
    unfolding ser
    using ck zero
    by (auto simp add: cs parse_reply_cases length_write_bytes length_wire_packet
        wire_packet_def write_bytes_def ts ld lc word_cat_high_low)
qed

theorem serialize_parse_roundtrip_witness:
  "\<exists>pkt. icmp_serialize Big_endian
            \<lparr>icmp_type = 0, icmp_code = 0, icmp_cksum = 0, icmp_id = 0x1234, icmp_seq = 3,
             icmp_ts = 7\<rparr> (replicate 16 0) 16 = Inr pkt \<and>
      (\<exists>r. parse_reply Big_endian pkt 16 = Inr (Ret_ok r) \<and>
           r\<lparr>icmp_cksum := 0\<rparr>
             = \<lparr>icmp_type = 0, icmp_code = 0, icmp_cksum = 0, icmp_id = 0x1234, icmp_seq = 3,
                icmp_ts = 7\<rparr>)"
  using serialize_parse_roundtrip [of "replicate 16 0" Big_endian
      "\<lparr>icmp_type = 0, icmp_code = 0, icmp_cksum = 0, icmp_id = 0x1234, icmp_seq = 3, icmp_ts = 7\<rparr>"]
  by simp

text \<open>
  Claim C5. For a buffer that holds \<open>len\<close> readable bytes (\<open>len\<close> a non-negative \<^verbatim>\<open>int\<close>),
  \<open>parse_reply\<close> always returns, and it returns \<open>-1\<close> exactly when the first of its
  checks fails: \<open>len\<close> below 16, type or code other than 0, or the checksum recomputed
  over a copy whose checksum field is zero differing from the 16-bit word received in the
  field (both as they lie in memory, that is in network byte order). Otherwise it returns 0
  and the record holds checksum, identifier and sequence number as the numbers that the
  high-byte-first fields denote (host byte order) and the timestamp as the eight bytes lie
  in memory. \<open>on_recv\<close> answers a rejected datagram with no output and no change of the
  session.
\<close>

theorem parse_reply_rejects_exactly:
  assumes "0 \<le> len" and "len < 2 ^ 31" and "len \<le> int (length buf)"
  shows "parse_reply e buf len =
     (if len < 16 then Inr Ret_fail
      else if buf ! 0 \<noteq> 0 \<or> buf ! 1 \<noteq> 0 then Inr Ret_fail
      else if icmp_checksum e (write_bytes 2 [0, 0] (take (nat len) buf)) len
                \<noteq> Inr (load_u16 e (buf ! 2) (buf ! 3)) then Inr Ret_fail
      else Inr (Ret_ok \<lparr>icmp_type = buf ! 0, icmp_code = buf ! 1,
                        icmp_cksum = word_cat (buf ! 2) (buf ! 3),
                        icmp_id = word_cat (buf ! 4) (buf ! 5),
                        icmp_seq = word_cat (buf ! 6) (buf ! 7),
                        icmp_ts = load_u64 e (take 8 (drop 8 buf))\<rparr>)) \<and>
     (re_nrecv env \<noteq> - 1 \<and>
      parse_reply e (drop 20 (re_buf env)) (re_nrecv env - 20) = Inr Ret_fail
      \<longrightarrow> on_recv e env s = Inr (s, []))"
proof (intro conjI impI)
  show "re_nrecv env \<noteq> - 1 \<and>
      parse_reply e (drop 20 (re_buf env)) (re_nrecv env - 20) = Inr Ret_fail
      \<Longrightarrow> on_recv e env s = Inr (s, [])"
    by (erule conjE) (rule on_recv_drops_rejected)
qed (rule parse_reply_cases [OF assms])

theorem parse_reply_rejects_exactly_witness:
  "parse_reply Little_endian [0,0,0xDD,0xB4, 0x12,0x34, 0,3, 1,2,3,4,5,6,7,8] 16 =
     Inr (Ret_ok \<lparr>icmp_type = 0, icmp_code = 0, icmp_cksum = 0xDDB4, icmp_id = 0x1234,
                  icmp_seq = 3, icmp_ts = 0x0807060504030201\<rparr>) \<and>
   on_recv Little_endian
     \<lparr>re_nrecv = 36, re_buf = recv_buffer [8,0,0xE5,0xC8, 0x12,0x34, 0,3, 0,0,0,0,0,0,0,0],
      re_pid = 0x1234, re_now = 1042\<rparr> init_session = Inr (init_session, [])"
proof -
  let ?buf = "[0,0,0xDD,0xB4, 0x12,0x34, 0,3, 1,2,3,4,5,6,7,8] :: byte list"
  let ?env = "\<lparr>re_nrecv = 36, re_buf = recv_buffer [8,0,0xE5,0xC8, 0x12,0x34, 0,3, 0,0,0,0,0,0,0,0],
      re_pid = 0x1234, re_now = 1042\<rparr>"
  have ck: "icmp_checksum Little_endian (write_bytes 2 [0, 0] (take (nat 16) ?buf)) 16
              = Inr (load_u16 Little_endian (?buf ! 2) (?buf ! 3))"
    by code_simp
  have v: "(word_cat (0xDD::byte) (0xB4::byte) :: u16) = 0xDDB4"
       "(word_cat (0x12::byte) (0x34::byte) :: u16) = 0x1234"
       "(word_cat (0::byte) (3::byte) :: u16) = 3"
       "load_u64 Little_endian [1,2,3,4,5,6,7,8] = 0x0807060504030201"
    by code_simp+
  have rej: "parse_reply Little_endian (drop 20 (re_buf ?env)) (re_nrecv ?env - 20) = Inr Ret_fail"
    by code_simp
  have h: "(0::int) \<le> 16" "(16::int) < 2 ^ 31" "(16::int) \<le> int (length ?buf)"
    by simp_all
  from ck rej parse_reply_rejects_exactly [OF h, of Little_endian ?env init_session]
  show ?thesis
    by (simp add: v)
qed

text \<open>
  Claim C2. Ten consecutive timer ticks on an empty window, with no reply in between, send
  ten probes and report exactly five timeouts: none in the first five turns, and in the turn
  that sends sequence \<open>k + 5\<close> the timeout of sequence \<open>k\<close>, for the first five sequences.
  It is proved for any first sequence number \<open>n \<ge> 0\<close> (the claim's run is \<open>n = 0\<close>, the
  program's own first run from \<open>init_session\<close> is \<open>n = 1\<close>), for clock readings other than 0,
  the value that marks an empty slot, and for system calls that succeed.
\<close>

theorem ten_probes_five_timeouts:
  assumes "0 \<le> n" and "n + 10 \<le> 2 ^ 31"
    and "seq s = n - 1" and "send_times s = replicate 5 0"
    and "length envs = 10"
    and "\<forall>env\<in>set envs. te_now env \<noteq> 0 \<and> te_read_ok env \<and> te_sendto_ok env"
  shows "\<exists>s' outs. main_loop e (map Timer_ready envs) s = Inr (s', outs) \<and>
     map sent_seqs outs =
       [[word_of_int n], [word_of_int (n + 1)], [word_of_int (n + 2)], [word_of_int (n + 3)],
        [word_of_int (n + 4)], [word_of_int (n + 5)], [word_of_int (n + 6)],
        [word_of_int (n + 7)], [word_of_int (n + 8)], [word_of_int (n + 9)]] \<and>
     map timeout_seqs outs = [[], [], [], [], [], [n], [n + 1], [n + 2], [n + 3], [n + 4]]"
proof -
  from assms(2,5) have "n + int (length envs) \<le> 2 ^ 31" by simp
  from ticks_run [OF assms(1,3,4,6) this, of e] obtain s' outs where
    "main_loop e (map Timer_ready envs) s = Inr (s', outs)"
    "map timeout_seqs outs
        = map (\<lambda>j. if j < 5 then [] else [n + int j - 5]) [0..<length envs]"
    "map sent_seqs outs = map (\<lambda>j. [word_of_int (n + int j)]) [0..<length envs]"
    by blast
  then show ?thesis
    by (simp add: assms(5) upt_10)
qed

theorem ten_probes_five_timeouts_witness:
  "\<exists>s' outs.
     main_loop Little_endian
       (map Timer_ready
          (replicate 10 \<lparr>te_now = 1000, te_pid = 0x1234, te_time = 0,
                          te_read_ok = True, te_sendto_ok = True\<rparr>))
       \<lparr>seq = - 1, send_times = replicate 5 0\<rparr> = Inr (s', outs) \<and>
     map sent_seqs outs = [[0], [1], [2], [3], [4], [5], [6], [7], [8], [9]] \<and>
     map timeout_seqs outs = [[], [], [], [], [], [0], [1], [2], [3], [4]]"
  using ten_probes_five_timeouts [of 0 "\<lparr>seq = - 1, send_times = replicate 5 0\<rparr>"
      "replicate 10 \<lparr>te_now = 1000, te_pid = 0x1234, te_time = 0,
                          te_read_ok = True, te_sendto_ok = True\<rparr>" Little_endian]
  by simp

text \<open>
  Claim C10. After any finite sequence of events that the loop of \<open>main\<close> has processed
  from the initial session, the window has its 5 entries, \<open>seq\<close> counts the probes sent, and
  each entry is 0 or the send timestamp of the most recently sent probe whose sequence
  number is congruent to its index modulo 5. In the next turn an empty entry becomes
  non-zero only when a probe is sent into it, and a set entry becomes 0 only when a datagram
  passes the length, type and code, checksum, identifier and staleness checks for that slot
  (the clock is taken never to read 0). The sequence number here is the counter \<open>seq\<close>.
\<close>

theorem window_slot_invariant:
  assumes "main_loop e evs init_session = Inr (s, outs)"
  shows "length (send_times s) = 5 \<and> seq s = int (length (sent_at evs)) \<and>
    (\<forall>i<5. send_times s ! i = 0 \<or> last_sent (sent_at evs) i = Some (send_times s ! i)) \<and>
    (\<forall>ev s' out i. i < 5 \<and> main_step e ev s = Inr (s', out) \<and> \<not> clock_zero ev \<longrightarrow>
        (send_times s ! i = 0 \<and> send_times s' ! i \<noteq> 0 \<longrightarrow> sent_into ev s i) \<and>
        (send_times s ! i \<noteq> 0 \<and> send_times s' ! i = 0 \<longrightarrow> accepted_for e ev s i))"
proof -
  note inv = run_invariant [OF assms]
  then have "0 \<le> seq s" by simp
  then have "\<forall>ev s' out i. i < 5 \<and> main_step e ev s = Inr (s', out) \<and> \<not> clock_zero ev \<longrightarrow>
        (send_times s ! i = 0 \<and> send_times s' ! i \<noteq> 0 \<longrightarrow> sent_into ev s i) \<and>
        (send_times s ! i \<noteq> 0 \<and> send_times s' ! i = 0 \<longrightarrow> accepted_for e ev s i)"
    using step_slot_changes by blast
  with inv show ?thesis by blast
qed

theorem window_slot_invariant_witness:
  "main_loop Little_endian
     [Timer_ready \<lparr>te_now = 1000, te_pid = 0x1234, te_time = 0,
                   te_read_ok = True, te_sendto_ok = True\<rparr>] init_session
     = Inr (\<lparr>seq = 1, send_times = [0, 1000, 0, 0, 0]\<rparr>,
            [[Sendto [8,0,0xE5,0xCA, 0x12,0x34, 0,1, 0,0,0,0,0,0,0,0]]]) \<and>
   last_sent (sent_at [Timer_ready \<lparr>te_now = 1000, te_pid = 0x1234, te_time = 0,
                   te_read_ok = True, te_sendto_ok = True\<rparr>]) 1 = Some 1000 \<and>
   accepted_for Little_endian
     (Socket_ready \<lparr>re_nrecv = 36,
        re_buf = recv_buffer [0,0,0xED,0xCA, 0x12,0x34, 0,1, 0,0,0,0,0,0,0,0],
        re_pid = 0x1234, re_now = 1042\<rparr>)
     \<lparr>seq = 1, send_times = [0, 1000, 0, 0, 0]\<rparr> 1"
proof -
  let ?tick = "Timer_ready \<lparr>te_now = 1000, te_pid = 0x1234, te_time = 0,
                   te_read_ok = True, te_sendto_ok = True\<rparr>"
  let ?reply = "Socket_ready \<lparr>re_nrecv = 36,
        re_buf = recv_buffer [0,0,0xED,0xCA, 0x12,0x34, 0,1, 0,0,0,0,0,0,0,0],
        re_pid = 0x1234, re_now = 1042\<rparr>"
  let ?s1 = "\<lparr>seq = 1, send_times = [0, 1000, 0, 0, 0]\<rparr>"
  have run: "main_loop Little_endian [?tick] init_session
     = Inr (?s1, [[Sendto [8,0,0xE5,0xCA, 0x12,0x34, 0,1, 0,0,0,0,0,0,0,0]]])"
    by code_simp
  have step: "main_step Little_endian ?reply ?s1
     = Inr (\<lparr>seq = 1, send_times = [0, 0, 0, 0, 0]\<rparr>, [Reply_line 1 64 42])"
    by code_simp
  have nz: "\<not> clock_zero ?reply"
    by (simp add: clock_zero_def)
  note inv = window_slot_invariant [OF run]
  from inv have "send_times ?s1 ! 1 = 0 \<or> last_sent (sent_at [?tick]) 1 = Some (send_times ?s1 ! 1)"
    by (elim conjE) (drule spec [of _ 1], simp)
  then have a: "last_sent (sent_at [?tick]) 1 = Some 1000" by simp
  from inv have "(1::nat) < 5 \<and> main_step Little_endian ?reply ?s1
        = Inr (\<lparr>seq = 1, send_times = [0, 0, 0, 0, 0]\<rparr>, [Reply_line 1 64 42]) \<and>
        \<not> clock_zero ?reply \<longrightarrow>
        (send_times ?s1 ! 1 \<noteq> 0 \<and> send_times \<lparr>seq = 1, send_times = [0, 0, 0, 0, 0]\<rparr> ! 1 = 0
           \<longrightarrow> accepted_for Little_endian ?reply ?s1 1)"
    by blast
  with step nz have b: "accepted_for Little_endian ?reply ?s1 1" by simp
  from run a b show ?thesis by simp
qed

text \<open>
  Claim C6. Given any record and a 16-byte buffer, \<open>icmp_serialize\<close> leaves exactly the
  wire packet in the buffer: type, code, the checksum with its high byte first, identifier
  and sequence number with the high byte first, and the eight bytes of the timestamp as
  they lie in the memory of the host. The checksum is the Internet checksum, in network
  byte order, of the same 16 bytes with a zero checksum field, on little-endian and on
  big-endian hosts alike. Neither the previous content of the buffer nor the checksum field
  of the record has any influence.
\<close>

theorem icmp_serialize_layout:
  assumes "length buf = 16"
  shows "icmp_serialize e req buf 16
           = Inr (wire_packet e req (inet_checksum (wire_packet e req 0)))"
proof -
  let ?p = "wire_packet e req 0"
  have "even (length ?p)" "length ?p \<le> 131072" "int (length ?p) = 16"
    by (simp_all add: length_wire_packet)
  with checksum_bytes_network_order [of ?p e]
  have "store_u16 e (fold_complement (sum_loop e ?p 16 0 0))
          = [ucast (drop_bit 8 (inet_checksum ?p)), ucast (inet_checksum ?p)]"
    by simp
  then show ?thesis
    using assms by (simp add: icmp_serialize_bytes) (simp add: wire_packet_def write_bytes_def)
qed

theorem icmp_serialize_layout_witness:
  "icmp_serialize Little_endian
     \<lparr>icmp_type = 8, icmp_code = 0, icmp_cksum = 0, icmp_id = 0x1234, icmp_seq = 1,
      icmp_ts = 0x0102030405060708\<rparr> (replicate 16 0) 16
     = Inr [8, 0, 0xD1, 0xBA, 0x12, 0x34, 0, 1, 8, 7, 6, 5, 4, 3, 2, 1]"
proof -
  let ?req = "\<lparr>icmp_type = 8, icmp_code = 0, icmp_cksum = 0, icmp_id = 0x1234, icmp_seq = 1,
      icmp_ts = 0x0102030405060708\<rparr>"
  have p0: "wire_packet Little_endian ?req 0
          = [8, 0, 0, 0, 0x12, 0x34, 0, 1, 8, 7, 6, 5, 4, 3, 2, 1]"
    by code_simp
  have ck: "inet_checksum [8, 0, 0, 0, 0x12, 0x34, 0, 1, 8, 7, 6, 5, 4, 3, 2, 1] = 0xD1BA"
    by (simp add: inet_checksum_def ones_sum_def load_u16_def unat_word_cat_bytes
        fold_carries_canon canon_def)
  have p: "wire_packet Little_endian ?req 0xD1BA
          = [8, 0, 0xD1, 0xBA, 0x12, 0x34, 0, 1, 8, 7, 6, 5, 4, 3, 2, 1]"
    by code_simp
  from icmp_serialize_layout [of "replicate 16 0" Little_endian ?req] show ?thesis
    by (simp only: p0 ck p length_replicate)
qed

text \<open>
  Claim C3. For every buffer with a zero checksum field, putting the result of
  \<open>icmp_checksum\<close> into the field should make the folded sum of all 16-bit words of the
  buffer \<open>0xFFFF\<close>. For buffers of even length up to 131072 bytes this holds (lemma
  \<open>checksum_self_consistent_even\<close>). For odd lengths \<open>icmp_checksum\<close> pads the byte before
  the last one instead of the last one (the defect of claim C8): on a 17-byte message ending
  in \<open>0x2A\<close> the folded sum of the completed buffer is \<open>0x002A\<close> on a little-endian host
  and \<open>0x2A00\<close> on a big-endian one.
\<close>

theorem checksum_odd_buffer_not_self_consistent:
  "icmp_checksum Little_endian [0,0,0,0, 0,1,0,1, 0,0,0,0,0,0,0,0, 0x2A] 17 = Inr 0xFDFF \<and>
   ones_sum Little_endian
     (write_bytes 2 (store_u16 Little_endian 0xFDFF)
        [0,0,0,0, 0,1,0,1, 0,0,0,0,0,0,0,0, 0x2A]) = 0x002A \<and>
   icmp_checksum Big_endian [0,0,0,0, 0,1,0,1, 0,0,0,0,0,0,0,0, 0x2A] 17 = Inr 0xFFFD \<and>
   ones_sum Big_endian
     (write_bytes 2 (store_u16 Big_endian 0xFFFD)
        [0,0,0,0, 0,1,0,1, 0,0,0,0,0,0,0,0, 0x2A]) = 0x2A00"
proof -
  have ck: "icmp_checksum Little_endian [0,0,0,0, 0,1,0,1, 0,0,0,0,0,0,0,0, 0x2A] 17 = Inr 0xFDFF"
    "icmp_checksum Big_endian [0,0,0,0, 0,1,0,1, 0,0,0,0,0,0,0,0, 0x2A] 17 = Inr 0xFFFD"
    by code_simp+
  have wr: "write_bytes 2 (store_u16 Little_endian 0xFDFF)
        [0,0,0,0, 0,1,0,1, 0,0,0,0,0,0,0,0, 0x2A]
        = [0,0,0xFF,0xFD, 0,1,0,1, 0,0,0,0,0,0,0,0, 0x2A]"
    "write_bytes 2 (store_u16 Big_endian 0xFFFD)
        [0,0,0,0, 0,1,0,1, 0,0,0,0,0,0,0,0, 0x2A]
        = [0,0,0xFF,0xFD, 0,1,0,1, 0,0,0,0,0,0,0,0, 0x2A]"
    by code_simp+
  have os: "ones_sum Little_endian [0,0,0xFF,0xFD, 0,1,0,1, 0,0,0,0,0,0,0,0, 0x2A] = 0x002A"
    "ones_sum Big_endian [0,0,0xFF,0xFD, 0,1,0,1, 0,0,0,0,0,0,0,0, 0x2A] = 0x2A00"
    by (simp_all add: ones_sum_def load_u16_def unat_word_cat_bytes fold_carries_canon canon_def)
  show ?thesis
    by (simp only: ck wr os simp_thms)
qed

end
